theory Spec2Isabelle
  imports Main "HOL-Library.Word"
begin

section \<open>listlib: a type-erased dynamic array in C\<close>

text \<open>
  The embedding follows \<^verbatim>\<open>src/list.c\<close> and \<^verbatim>\<open>include/list.h\<close>, compiled as C23.
  \<^item> \<^verbatim>\<open>size_t\<close> is a 64-bit word: \<open>+\<close>, \<open>-\<close> and \<open>*\<close> wrap around, \<open>div\<close> truncates.
  \<^item> A pointer that may be \<^verbatim>\<open>nullptr\<close> is an \<open>option\<close>; \<open>None\<close> is the null pointer.
    A non-null pointer to a block of memory is \<open>Some\<close> of the bytes of that block.
    The blocks handed in by the caller (\<^verbatim>\<open>value\<close>, \<^verbatim>\<open>out_value\<close>) are distinct from
    the buffer owned by the list.
  \<^item> The allocator is an external collaborator: every function that calls it takes the
    allocator's answer as an argument, and a function that frees a block returns the
    block it released.
  \<^item> A function whose C code can have undefined behaviour (a null pointer dereferenced,
    a copy outside the bounds of a block, \<^verbatim>\<open>realloc\<close> with size zero) returns an
    \<open>option\<close>, and \<open>None\<close> stands for undefined behaviour: no result is defined.
\<close>

type_synonym byte = "8 word"
type_synonym size_t = "64 word"
type_synonym block = "byte list"

datatype list_status = LIST_OK | LIST_ERR_ALLOC | LIST_ERR_INVALID | LIST_OUT_OF_BOUNDS

text \<open>\<^verbatim>\<open>struct list\<close>; the field \<^verbatim>\<open>size\<close> is \<open>size_l\<close> here.\<close>

record list_t =
  data :: "block option"
  size_l :: size_t
  capacity :: size_t
  elem_size :: size_t

subsection \<open>The C library: allocator and block operations\<close>

text \<open>
  The answer of the allocator to one request: it refuses (returns \<^verbatim>\<open>nullptr\<close>), or it
  grants the request; \<open>Grant fresh\<close> carries the indeterminate contents of fresh memory,
  byte by byte.
\<close>

datatype heap_reply = Refuse | Grant "nat \<Rightarrow> byte"

text \<open>\<^verbatim>\<open>calloc(nmemb, size)\<close>: zero-initialised; fails when the product does not fit.\<close>

definition calloc :: "size_t \<Rightarrow> size_t \<Rightarrow> heap_reply \<Rightarrow> block option" where
  "calloc nmemb sz r =
     (case r of
        Refuse \<Rightarrow> None
      | Grant fresh \<Rightarrow>
          if unat nmemb * unat sz < 2 ^ 64 then Some (replicate (unat nmemb * unat sz) 0)
          else None)"

text \<open>
  \<^verbatim>\<open>realloc(ptr, n)\<close> for \<open>n > 0\<close>: on success the new block has \<open>n\<close> bytes, the old
  contents up to the smaller of the two sizes, fresh bytes beyond. On failure the old
  block stays as it is.
\<close>

definition realloc :: "block option \<Rightarrow> size_t \<Rightarrow> heap_reply \<Rightarrow> block option" where
  "realloc p n r =
     (case r of
        Refuse \<Rightarrow> None
      | Grant fresh \<Rightarrow>
          (let old = (case p of None \<Rightarrow> [] | Some b \<Rightarrow> b)
           in Some (take (unat n) old @ map fresh [length old..<unat n])))"

text \<open>
  \<^verbatim>\<open>memcpy(dst + doff, src + soff, n)\<close> and \<^verbatim>\<open>memset(dst + off, c, n)\<close>: the new
  contents of the destination block, or \<open>None\<close> when a range leaves its block.
\<close>

definition memcpy :: "block \<Rightarrow> nat \<Rightarrow> block \<Rightarrow> nat \<Rightarrow> nat \<Rightarrow> block option" where
  "memcpy dst doff src soff n =
     (if doff + n \<le> length dst \<and> soff + n \<le> length src
      then Some (take doff dst @ take n (drop soff src) @ drop (doff + n) dst)
      else None)"

definition memset :: "block \<Rightarrow> nat \<Rightarrow> byte \<Rightarrow> nat \<Rightarrow> block option" where
  "memset dst off c n =
     (if off + n \<le> length dst
      then Some (take off dst @ replicate n c @ drop (off + n) dst)
      else None)"

text \<open>
  \<^verbatim>\<open>free(ptr)\<close> hands a block back to the allocator: the result is the block that was
  released, and \<^verbatim>\<open>free(nullptr)\<close> releases nothing.
\<close>

definition free :: "block option \<Rightarrow> block option" where
  "free ptr = (case ptr of None \<Rightarrow> None | Some b \<Rightarrow> Some b)"

subsection \<open>Internal functions\<close>

text \<open>
  \<^verbatim>\<open>list_resize\<close> asks \<^verbatim>\<open>realloc\<close> for \<^verbatim>\<open>new_capacity * elem_size\<close> bytes, a product
  of \<^verbatim>\<open>size_t\<close> that may wrap. The project is compiled as C23, where \<^verbatim>\<open>realloc\<close> with
  size zero is undefined. When the list grows, \<^verbatim>\<open>memset\<close> zeroes the bytes from the old
  capacity to the new one; a range that leaves the new block is undefined behaviour.
  On a refused request the list is returned as it was.
\<close>

definition list_resize ::
  "list_t option \<Rightarrow> size_t \<Rightarrow> heap_reply \<Rightarrow> (list_status \<times> list_t option) option" where
  "list_resize lst new_capacity r =
     (case lst of
        None \<Rightarrow> Some (LIST_ERR_INVALID, lst)
      | Some l \<Rightarrow>
          if new_capacity = 0 then Some (LIST_ERR_INVALID, lst)
          else if new_capacity = capacity l then Some (LIST_OK, lst)
          else if new_capacity * elem_size l = 0 then None
          else
            (case realloc (data l) (new_capacity * elem_size l) r of
               None \<Rightarrow> Some (LIST_ERR_ALLOC, lst)
             | Some new_data \<Rightarrow>
                 (case (if new_capacity > capacity l
                        then memset new_data (unat (capacity l * elem_size l)) 0
                               (unat ((new_capacity - capacity l) * elem_size l))
                        else Some new_data) of
                    None \<Rightarrow> None
                  | Some new_data' \<Rightarrow>
                      (let l1 = l\<lparr>data := Some new_data', capacity := new_capacity\<rparr>
                       in Some (LIST_OK,
                            Some (if size_l l1 > new_capacity
                                  then l1\<lparr>size_l := new_capacity\<rparr> else l1))))))"

definition list_grow ::
  "list_t option \<Rightarrow> heap_reply \<Rightarrow> (list_status \<times> list_t option) option" where
  "list_grow lst r =
     (case lst of
        None \<Rightarrow> None
      | Some l \<Rightarrow>
          (let new_capacity = (if capacity l = 0 then 1 else capacity l * 2)
           in list_resize lst new_capacity r))"

subsection \<open>Public functions\<close>

definition list_init_with_capacity ::
  "list_t option \<Rightarrow> size_t \<Rightarrow> size_t \<Rightarrow> heap_reply \<Rightarrow> list_status \<times> list_t option" where
  "list_init_with_capacity lst cap esz r =
     (case lst of
        None \<Rightarrow> (LIST_ERR_INVALID, lst)
      | Some l \<Rightarrow>
          if esz = 0 then (LIST_ERR_INVALID, lst)
          else
            (let l1 = l\<lparr>data := None, size_l := 0, capacity := 0, elem_size := esz\<rparr>
             in if cap = 0 then (LIST_OK, Some l1)
                else
                  (case calloc cap esz r of
                     None \<Rightarrow> (LIST_ERR_ALLOC, Some l1)
                   | Some b \<Rightarrow> (LIST_OK, Some (l1\<lparr>data := Some b, capacity := cap\<rparr>)))))"

definition list_init ::
  "list_t option \<Rightarrow> size_t \<Rightarrow> heap_reply \<Rightarrow> list_status \<times> list_t option" where
  "list_init lst esz r = list_init_with_capacity lst 0 esz r"

text \<open>
  \<^verbatim>\<open>list_destroy\<close> returns the list and the block it released with \<^verbatim>\<open>free\<close>; on a
  null \<^verbatim>\<open>lst\<close> it returns at once and \<^verbatim>\<open>free\<close> is not called.
\<close>

definition list_destroy :: "list_t option \<Rightarrow> list_t option \<times> block option" where
  "list_destroy lst =
     (case lst of
        None \<Rightarrow> (None, None)
      | Some l \<Rightarrow>
          (let released = free (data l)
           in (Some (l\<lparr>data := None, size_l := 0, capacity := 0\<rparr>), released)))"

definition list_size :: "list_t option \<Rightarrow> size_t" where
  "list_size lst = (case lst of Some l \<Rightarrow> size_l l | None \<Rightarrow> 0)"

definition list_capacity :: "list_t option \<Rightarrow> size_t" where
  "list_capacity lst = (case lst of Some l \<Rightarrow> capacity l | None \<Rightarrow> 0)"

definition list_push ::
  "list_t option \<Rightarrow> block option \<Rightarrow> heap_reply \<Rightarrow> (list_status \<times> list_t option) option" where
  "list_push lst val r =
     (case lst of
        None \<Rightarrow> Some (LIST_ERR_INVALID, lst)
      | Some l \<Rightarrow>
          (case val of
             None \<Rightarrow> Some (LIST_ERR_INVALID, lst)
           | Some v \<Rightarrow>
               (case (if size_l l \<ge> capacity l then list_grow lst r
                      else Some (LIST_OK, lst)) of
                  None \<Rightarrow> None
                | Some (err, lst1) \<Rightarrow>
                    if err \<noteq> LIST_OK then Some (err, lst1)
                    else
                      (case lst1 of
                         None \<Rightarrow> None
                       | Some l1 \<Rightarrow>
                           (case data l1 of
                              None \<Rightarrow> None
                            | Some buf \<Rightarrow>
                                (case memcpy buf (unat (size_l l1 * elem_size l1)) v 0
                                        (unat (elem_size l1)) of
                                   None \<Rightarrow> None
                                 | Some buf' \<Rightarrow>
                                     Some (LIST_OK,
                                       Some (l1\<lparr>data := Some buf',
                                                size_l := size_l l1 + 1\<rparr>))))))))"

text \<open>
  \<^verbatim>\<open>list_pop\<close> returns the status, the list and the caller's output block.
  It reads \<^verbatim>\<open>lst->data\<close> without a null check on \<^verbatim>\<open>lst\<close>.
\<close>

definition list_pop ::
  "list_t option \<Rightarrow> block option \<Rightarrow> heap_reply \<Rightarrow>
     (list_status \<times> list_t option \<times> block option) option" where
  "list_pop lst out_value r =
     (case lst of
        None \<Rightarrow> None
      | Some l \<Rightarrow>
          (case data l of
             None \<Rightarrow> Some (LIST_ERR_INVALID, lst, out_value)
           | Some buf \<Rightarrow>
               if size_l l = 0 then Some (LIST_ERR_INVALID, lst, out_value)
               else
                 (let l1 = l\<lparr>size_l := size_l l - 1\<rparr>
                  in case (case out_value of
                             None \<Rightarrow> Some None
                           | Some ob \<Rightarrow>
                               map_option Some
                                 (memcpy ob 0 buf (unat (size_l l1 * elem_size l1))
                                    (unat (elem_size l1)))) of
                       None \<Rightarrow> None
                     | Some out' \<Rightarrow>
                         if capacity l1 > 1 \<and> size_l l1 < capacity l1 div 4 then
                           (let new_capacity = capacity l1 div 2;
                                new_capacity' = (if new_capacity < 1 then 1 else new_capacity)
                            in case list_resize (Some l1) new_capacity' r of
                                 None \<Rightarrow> None
                               | Some (err, lst2) \<Rightarrow>
                                   if err \<noteq> LIST_OK then Some (err, lst2, out')
                                   else Some (LIST_OK, lst2, out'))
                         else Some (LIST_OK, Some l1, out'))))"

definition list_get ::
  "list_t option \<Rightarrow> size_t \<Rightarrow> block option \<Rightarrow> (list_status \<times> block option) option" where
  "list_get lst index out_value =
     (case lst of
        None \<Rightarrow> Some (LIST_ERR_INVALID, out_value)
      | Some l \<Rightarrow>
          (case data l of
             None \<Rightarrow> Some (LIST_ERR_INVALID, out_value)
           | Some buf \<Rightarrow>
               (case out_value of
                  None \<Rightarrow> Some (LIST_ERR_INVALID, out_value)
                | Some ob \<Rightarrow>
                    if index \<ge> size_l l then Some (LIST_OUT_OF_BOUNDS, out_value)
                    else
                      (case memcpy ob 0 buf (unat (index * elem_size l))
                              (unat (elem_size l)) of
                         None \<Rightarrow> None
                       | Some ob' \<Rightarrow> Some (LIST_OK, Some ob')))))"

text \<open>\<^verbatim>\<open>list_peek\<close> reads \<^verbatim>\<open>lst->data\<close> without a null check on \<^verbatim>\<open>lst\<close>.\<close>

definition list_peek ::
  "list_t option \<Rightarrow> block option \<Rightarrow> (list_status \<times> block option) option" where
  "list_peek lst out_value =
     (case lst of
        None \<Rightarrow> None
      | Some l \<Rightarrow>
          if data l = None \<or> size_l l = 0 \<or> out_value = None
          then Some (LIST_ERR_INVALID, out_value)
          else list_get lst (size_l l - 1) out_value)"

text \<open>
  \<^verbatim>\<open>list_set\<close> does not test \<^verbatim>\<open>value\<close>: with a null \<^verbatim>\<open>value\<close> and an index in
  range, \<^verbatim>\<open>memcpy\<close> reads through the null pointer.
\<close>

definition list_set ::
  "list_t option \<Rightarrow> size_t \<Rightarrow> block option \<Rightarrow> (list_status \<times> list_t option) option" where
  "list_set lst index val =
     (case lst of
        None \<Rightarrow> Some (LIST_ERR_INVALID, lst)
      | Some l \<Rightarrow>
          (case data l of
             None \<Rightarrow> Some (LIST_ERR_INVALID, lst)
           | Some buf \<Rightarrow>
               if index \<ge> size_l l then Some (LIST_OUT_OF_BOUNDS, lst)
               else
                 (case val of
                    None \<Rightarrow> None
                  | Some v \<Rightarrow>
                      (case memcpy buf (unat (index * elem_size l)) v 0
                              (unat (elem_size l)) of
                         None \<Rightarrow> None
                       | Some buf' \<Rightarrow> Some (LIST_OK, Some (l\<lparr>data := Some buf'\<rparr>))))))"

definition list_clear :: "list_t option \<Rightarrow> list_t option" where
  "list_clear lst =
     (case lst of
        None \<Rightarrow> None
      | Some l \<Rightarrow> Some (l\<lparr>size_l := 0\<rparr>))"

subsection \<open>Well-formed lists and their contents\<close>

text \<open>The bytes of the buffer; a list without buffer has none.\<close>

definition buffer_of :: "list_t \<Rightarrow> block" where
  "buffer_of l = (case data l of None \<Rightarrow> [] | Some b \<Rightarrow> b)"

text \<open>
  The representation invariant: the element size is positive, the size is at most the
  capacity, a list of capacity 0 has no buffer, and a list of positive capacity has a
  buffer of exactly \<open>capacity \<times> elem_size\<close> bytes, a product that fits \<^verbatim>\<open>size_t\<close>.
\<close>

definition list_valid :: "list_t \<Rightarrow> bool" where
  "list_valid l =
     (elem_size l \<noteq> 0 \<and> size_l l \<le> capacity l \<and>
      unat (capacity l) * unat (elem_size l) < 2 ^ 64 \<and>
      (case data l of
         None \<Rightarrow> capacity l = 0
       | Some buf \<Rightarrow> capacity l \<noteq> 0 \<and> length buf = unat (capacity l) * unat (elem_size l)))"

text \<open>The bytes of a buffer after it was moved to \<open>n\<close> bytes and its new part zeroed.\<close>

definition resized :: "block \<Rightarrow> nat \<Rightarrow> block" where
  "resized old n = take n old @ replicate (n - length old) 0"

text \<open>The bytes of the element at index \<open>i\<close>.\<close>

definition elem_at :: "list_t \<Rightarrow> nat \<Rightarrow> block" where
  "elem_at l i = take (unat (elem_size l)) (drop (i * unat (elem_size l)) (buffer_of l))"

text \<open>
  The list after a successful \<^verbatim>\<open>list_grow\<close>: the buffer moved to the new capacity,
  its new part zeroed.
\<close>

definition grown :: "list_t \<Rightarrow> list_t" where
  "grown l =
     (let new_capacity = (if capacity l = 0 then 1 else capacity l * 2)
      in l\<lparr>data := Some (resized (buffer_of l) (unat new_capacity * unat (elem_size l))),
           capacity := new_capacity\<rparr>)"

text \<open>
  The free region: the bytes of the buffer from element offset \<open>size\<close> on are zero.
\<close>

definition free_zeroed :: "list_t \<Rightarrow> bool" where
  "free_zeroed l =
     (\<forall>b \<in> set (drop (unat (size_l l) * unat (elem_size l)) (buffer_of l)). b = 0)"

text \<open>
  A run of pushes, as in the loop of \<^verbatim>\<open>populate_list_with_data\<close> of the tests: each
  value comes with the answer the allocator gives should the push grow the buffer; the
  run gives a list only if every push returns \<^verbatim>\<open>LIST_OK\<close>.
\<close>

fun pushes :: "list_t \<Rightarrow> (block \<times> heap_reply) list \<Rightarrow> list_t option" where
  "pushes l [] = Some l"
| "pushes l ((w, r) # rest) =
     (case list_push (Some l) (Some w) r of
        Some (LIST_OK, Some l') \<Rightarrow> pushes l' rest
      | _ \<Rightarrow> None)"

text \<open>
  The capacity that the doubling rule gives a list of \<open>s\<close> elements that started without
  buffer: 0 for no element, else the least power of two that is at least \<open>s\<close>.
\<close>

definition capacity_fits :: "nat \<Rightarrow> nat \<Rightarrow> bool" where
  "capacity_fits s c =
     (s = 0 \<and> c = 0 \<or> (\<exists>j. c = 2 ^ j \<and> s \<le> 2 ^ j \<and> (j = 0 \<or> 2 ^ (j - 1) < s)))"

text \<open>
  The states a list can reach: a successful initialisation, then any public function
  that changes the list, with any arguments and any answer of the allocator, whatever
  status it returns, as long as the call has defined behaviour. \<^verbatim>\<open>list_init\<close> is
  \<^verbatim>\<open>list_init_with_capacity\<close> with capacity 0; \<^verbatim>\<open>list_get\<close>, \<^verbatim>\<open>list_peek\<close>,
  \<^verbatim>\<open>list_size\<close> and \<^verbatim>\<open>list_capacity\<close> do not change the list.
\<close>

inductive reachable :: "list_t \<Rightarrow> bool" where
  init: "list_init_with_capacity (Some l0) cap esz r = (LIST_OK, Some l) \<Longrightarrow> reachable l"
| push: "reachable l \<Longrightarrow> list_push (Some l) val r = Some (st, Some l') \<Longrightarrow> reachable l'"
| pop: "reachable l \<Longrightarrow> list_pop (Some l) out r = Some (st, Some l', out') \<Longrightarrow> reachable l'"
| set: "reachable l \<Longrightarrow> list_set (Some l) index val = Some (st, Some l') \<Longrightarrow> reachable l'"
| clear: "reachable l \<Longrightarrow> list_clear (Some l) = Some l' \<Longrightarrow> reachable l'"
| destroy: "reachable l \<Longrightarrow> list_destroy (Some l) = (Some l', released) \<Longrightarrow> reachable l'"

section \<open>Properties\<close>

subsection \<open>Arithmetic of \<^verbatim>\<open>size_t\<close>\<close>

lemma size_t_bound: "unat (x :: size_t) < 2 ^ 64"
  using unsigned_less [of x] by simp

lemma mult_bound:
  fixes a c e m :: nat
  assumes "a \<le> c" and "c * e < m"
  shows "a * e < m"
  using mult_le_mono1 [OF assms(1), of e] assms(2) by (rule le_less_trans)

lemma size_t_mult:
  fixes a e :: size_t
  assumes "unat a * unat e < 2 ^ 64"
  shows "unat (a * e) = unat a * unat e"
  using assms unat_mult_lem [of a e] by simp

lemma size_t_mult_le:
  fixes a c e :: size_t
  assumes "unat a \<le> unat c" and "unat c * unat e < 2 ^ 64"
  shows "unat (a * e) = unat a * unat e"
proof -
  have "unat a * unat e \<le> unat c * unat e"
    using assms(1) by (rule mult_le_mono1)
  then show ?thesis
    using assms(2) by (intro size_t_mult) linarith
qed

lemma buffer_of_length:
  "list_valid l \<Longrightarrow> length (buffer_of l) = unat (capacity l) * unat (elem_size l)"
  by (auto simp: list_valid_def buffer_of_def split: option.splits)

lemma realloc_length: "realloc p n r = Some b \<Longrightarrow> length b = unat n"
  by (auto simp: realloc_def Let_def split: heap_reply.splits)

lemma list_resize_failed:
  assumes "list_resize lst n r = Some (st, lst')" and "st \<noteq> LIST_OK"
  shows "lst' = lst"
  using assms
  by (auto simp: list_resize_def Let_def split: option.splits if_splits)

lemma list_resize_ok:
  assumes v: "list_valid l"
    and n: "unat n \<le> 2 * unat (capacity l) \<or> n = 1"
    and ok: "list_resize (Some l) n r = Some (LIST_OK, lst')"
  shows "n \<noteq> 0 \<and> unat n * unat (elem_size l) < 2 ^ 64 \<and>
         lst' = Some (l\<lparr>data := Some (resized (buffer_of l) (unat n * unat (elem_size l))),
                           capacity := n,
                           size_l := (if size_l l > n then n else size_l l)\<rparr>)"
proof -
  let ?c = "capacity l" and ?e = "elem_size l" and ?old = "buffer_of l"
  let ?L = "unat ?c * unat ?e"
  from v have L: "?L < 2 ^ 64" and len: "length ?old = ?L" and e0: "?e \<noteq> 0"
    by (simp_all add: list_valid_def buffer_of_length)
  from v have sz: "size_l l \<le> ?c" by (simp add: list_valid_def)
  from ok have n0: "n \<noteq> 0"
    by (auto simp: list_resize_def split: if_splits)
  have cL: "unat (?c * ?e) = ?L" using L by (rule size_t_mult)
  show ?thesis
  proof (cases "n = ?c")
    case True
    with ok n0 have "lst' = Some l"
      by (simp add: list_resize_def)
    moreover from True n0 v obtain buf where "data l = Some buf" "length buf = ?L"
      by (auto simp: list_valid_def split: option.splits)
    ultimately show ?thesis
      using True n0 L sz by (simp add: resized_def buffer_of_def)
  next
    case ne: False
    from ok ne n0 obtain fresh where r: "r = Grant fresh"
      by (cases r) (auto simp: list_resize_def realloc_def split: if_splits)
    define blk where "blk = take (unat (n * ?e)) ?old @ map fresh [length ?old..<unat (n * ?e)]"
    have re: "realloc (data l) (n * ?e) r = Some blk"
      by (simp add: r realloc_def Let_def blk_def buffer_of_def)
    have blk_len: "length blk = unat (n * ?e)"
      using re by (rule realloc_length)
    show ?thesis
    proof (cases "n > ?c")
      case grow: True
      from ok ne n0 re grow obtain nd where
        ms: "memset blk ?L 0 (unat ((n - ?c) * ?e)) = Some nd"
        and res: "lst' = Some (l\<lparr>data := Some nd, capacity := n,
                        size_l := (if size_l l > n then n else size_l l)\<rparr>)"
        by (auto simp: list_resize_def Let_def cL split: if_splits option.splits)
      from grow have cn: "unat ?c < unat n" by (simp add: word_less_nat_alt)
      then have sub: "unat (n - ?c) = unat n - unat ?c"
        by (simp add: unat_sub word_le_nat_alt)
      have d: "unat ((n - ?c) * ?e) = (unat n - unat ?c) * unat ?e"
      proof -
        from n have "unat (n - ?c) * unat ?e < 2 ^ 64"
        proof
          assume "unat n \<le> 2 * unat ?c"
          then have "unat n - unat ?c \<le> unat ?c" by simp
          then have "(unat n - unat ?c) * unat ?e \<le> ?L" by (rule mult_le_mono1)
          then have "(unat n - unat ?c) * unat ?e < 2 ^ 64" using L by (rule le_less_trans)
          then show ?thesis by (simp only: sub)
        next
          assume "n = 1"
          with cn have "unat ?c = 0" by simp
          with \<open>n = 1\<close> sub size_t_bound [of ?e] show ?thesis by simp
        qed
        then show ?thesis using sub by (simp add: size_t_mult)
      qed
      from ms have "?L + unat ((n - ?c) * ?e) \<le> length blk"
        by (simp add: memset_def split: if_splits)
      with d cn have "unat n * unat ?e \<le> unat (n * ?e)"
        by (simp add: blk_len diff_mult_distrib)
      moreover have "unat (n * ?e) < 2 ^ 64" by (rule size_t_bound)
      ultimately have P: "unat n * unat ?e < 2 ^ 64" by simp
      then have nL: "unat (n * ?e) = unat n * unat ?e" by (rule size_t_mult)
      from cn have LN: "?L \<le> unat n * unat ?e" by simp
      from ms d LN have "nd = resized ?old (unat n * unat ?e)"
        by (auto simp: memset_def blk_def nL len resized_def diff_mult_distrib split: if_splits)
      with res n0 P show ?thesis by simp
    next
      case False
      with ne have shrink: "unat n < unat ?c"
        by (simp add: word_less_nat_alt word_unat_eq_iff)
      then have "unat n \<le> unat ?c" by simp
      then have P: "unat n * unat ?e < 2 ^ 64" using L by (rule mult_bound)
      then have nL: "unat (n * ?e) = unat n * unat ?e" by (rule size_t_mult)
      from ok ne n0 re False have
        "lst' = Some (l\<lparr>data := Some blk, capacity := n,
                        size_l := (if size_l l > n then n else size_l l)\<rparr>)"
        by (auto simp: list_resize_def Let_def split: if_splits option.splits)
      moreover from shrink have "blk = resized ?old (unat n * unat ?e)"
        by (simp add: blk_def nL len resized_def)
      ultimately show ?thesis using n0 P by simp
    qed
  qed
qed

lemma resized_length [simp]: "length (resized old n) = n"
  by (simp add: resized_def)

lemma resized_same [simp]: "resized old (length old) = old"
  by (simp add: resized_def)

lemma list_resize_valid:
  assumes v: "list_valid l"
    and n: "unat n \<le> 2 * unat (capacity l) \<or> n = 1"
    and res: "list_resize (Some l) n r = Some (st, lst')"
  shows "\<exists>l'. lst' = Some l' \<and> list_valid l' \<and> elem_size l' = elem_size l"
proof (cases "st = LIST_OK")
  case True
  with res have ok: "list_resize (Some l) n r = Some (LIST_OK, lst')" by simp
  note c = list_resize_ok [OF v n ok]
  from v have "elem_size l \<noteq> 0" by (simp add: list_valid_def)
  with c show ?thesis
    by (auto simp: list_valid_def)
next
  case False
  with res have "lst' = Some l" by (rule list_resize_failed)
  with v show ?thesis by simp
qed

lemma twice_size_t: "unat (c * 2 :: size_t) \<le> 2 * unat c"
proof -
  have "unat (c * 2) = unat c * 2 mod 2 ^ 64"
    by (simp add: unat_word_ariths)
  also have "\<dots> \<le> unat c * 2" by (rule mod_less_eq_dividend)
  finally show ?thesis by simp
qed

lemma grow_capacity_legit:
  "unat (if capacity l = 0 then 1 else capacity l * 2) \<le> 2 * unat (capacity l) \<or>
   (if capacity l = 0 then 1 else capacity l * 2) = 1"
  by (simp add: twice_size_t)

lemma half_size_t:
  fixes c :: size_t
  assumes "1 < c"
  shows "c div 2 \<noteq> 0" and "max 1 (c div 2) = c div 2" and "c div 2 \<noteq> c"
    and "unat (c div 2) \<le> unat c"
proof -
  from assms have c: "1 < unat c" by (simp add: word_less_nat_alt)
  have h: "unat (c div 2) = unat c div 2" by (simp add: unat_div)
  with c have lt: "unat (c div 2) < unat c" and pos: "0 < unat (c div 2)" by simp_all
  from lt show "c div 2 \<noteq> c" by auto
  from pos show nz: "c div 2 \<noteq> 0" by auto
  from pos have "1 \<le> c div 2" by (simp add: word_le_nat_alt)
  then show "max 1 (c div 2) = c div 2" by (simp add: max_def)
  from lt show "unat (c div 2) \<le> unat c" by simp
qed

lemma list_resize_capacity:
  assumes "list_resize (Some l) n r = Some (LIST_OK, Some l')"
  shows "capacity l' = n"
  using assms
  by (auto simp: list_resize_def Let_def split: if_splits option.splits)

lemma elem_offset:
  assumes "list_valid l" and "i \<le> capacity l"
  shows "unat (i * elem_size l) = unat i * unat (elem_size l)"
  using assms by (intro size_t_mult_le [of i "capacity l"]) (simp_all add: list_valid_def word_le_nat_alt)

lemma elem_in_buffer:
  assumes "list_valid l" and "i < capacity l"
  shows "unat i * unat (elem_size l) + unat (elem_size l) \<le> length (buffer_of l)"
proof -
  from assms(2) have "Suc (unat i) \<le> unat (capacity l)" by (simp add: word_less_nat_alt)
  then have "Suc (unat i) * unat (elem_size l) \<le> unat (capacity l) * unat (elem_size l)"
    by (rule mult_le_mono1)
  with assms(1) show ?thesis by (simp add: buffer_of_length)
qed

subsection \<open>Pushing\<close>

lemma slot_count:
  fixes s c e :: nat
  assumes "s * e + e \<le> c * e" and "0 < e"
  shows "s < c"
proof -
  from assms(1) have "Suc s * e \<le> c * e" by simp
  with assms(2) show ?thesis by (metis mult_le_cancel2 Suc_le_lessD)
qed

lemma write_elem:
  assumes v: "list_valid l"
    and cp: "memcpy (buffer_of l) (unat (size_l l * elem_size l)) w 0 (unat (elem_size l)) = Some buf'"
  shows "size_l l < capacity l \<and> unat (elem_size l) \<le> length w \<and>
         buf' = take (unat (size_l l) * unat (elem_size l)) (buffer_of l) @
                take (unat (elem_size l)) w @
                drop (unat (size_l l) * unat (elem_size l) + unat (elem_size l)) (buffer_of l)"
proof -
  let ?e = "unat (elem_size l)"
  from v have sz: "size_l l \<le> capacity l" and e0: "0 < ?e"
    by (simp_all add: list_valid_def unat_gt_0)
  from v sz have off: "unat (size_l l * elem_size l) = unat (size_l l) * ?e"
    by (rule elem_offset)
  from cp have r: "unat (size_l l) * ?e + ?e \<le> length (buffer_of l)" and w: "?e \<le> length w"
    by (simp_all add: memcpy_def off split: if_splits)
  from r v have "unat (size_l l) * ?e + ?e \<le> unat (capacity l) * ?e"
    by (simp add: buffer_of_length)
  then have "unat (size_l l) < unat (capacity l)" using e0 by (rule slot_count)
  then have "size_l l < capacity l" by (simp add: word_less_nat_alt)
  with cp w show ?thesis
    by (simp add: memcpy_def off split: if_splits)
qed

lemma list_push_ok:
  assumes v: "list_valid l"
    and ok: "list_push (Some l) val r = Some (LIST_OK, lst')"
  obtains w l1 where "val = Some w" and "unat (elem_size l) \<le> length w"
    and "l1 = (if size_l l = capacity l then grown l else l)"
    and "list_valid l1" and "size_l l < capacity l1"
    and "lst' = Some (l1\<lparr>data := Some
                  (take (unat (size_l l) * unat (elem_size l)) (buffer_of l1) @
                   take (unat (elem_size l)) w @
                   drop (unat (size_l l) * unat (elem_size l) + unat (elem_size l)) (buffer_of l1)),
                 size_l := size_l l + 1\<rparr>)"
proof -
  from ok obtain w where w: "val = Some w"
    by (cases val) (simp_all add: list_push_def)
  from v have sz: "size_l l \<le> capacity l" by (simp add: list_valid_def)
  define l1 where "l1 = (if size_l l = capacity l then grown l else l)"
  have step: "list_valid l1 \<and> size_l l1 = size_l l \<and> elem_size l1 = elem_size l \<and>
     (\<exists>buf'. memcpy (buffer_of l1) (unat (size_l l1 * elem_size l1)) w 0 (unat (elem_size l1)) = Some buf' \<and>
        lst' = Some (l1\<lparr>data := Some buf', size_l := size_l l1 + 1\<rparr>))"
  proof (cases "size_l l = capacity l")
    case False
    with sz have lt: "\<not> capacity l \<le> size_l l" by auto
    from False have l1: "l1 = l" by (simp add: l1_def)
    from ok w lt show ?thesis
      by (auto simp: list_push_def l1 v buffer_of_def split: option.splits if_splits)
  next
    case True
    let ?n = "if capacity l = 0 then 1 else capacity l * 2"
    from ok w True obtain lst1 where
      g: "list_resize (Some l) ?n r = Some (LIST_OK, lst1)"
      by (auto simp: list_push_def list_grow_def Let_def split: option.splits if_splits)
    note c = list_resize_ok [OF v grow_capacity_legit g]
    define l2 where "l2 = l\<lparr>data := Some (resized (buffer_of l) (unat ?n * unat (elem_size l))),
                           capacity := ?n,
                           size_l := (if size_l l > ?n then ?n else size_l l)\<rparr>"
    from c have lst1: "lst1 = Some l2" by (simp add: l2_def)
    from list_resize_valid [OF v grow_capacity_legit g] lst1 have v2: "list_valid l2" by simp
    from ok w True g lst1 obtain buf' where
      cp: "memcpy (buffer_of l2) (unat (size_l l2 * elem_size l2)) w 0 (unat (elem_size l2)) = Some buf'"
      and l': "lst' = Some (l2\<lparr>data := Some buf', size_l := size_l l2 + 1\<rparr>)"
      by (auto simp: list_push_def list_grow_def Let_def buffer_of_def l2_def
               split: option.splits if_splits)
    from write_elem [OF v2 cp] have "size_l l2 < capacity l2" by simp
    then have "\<not> ?n < size_l l" by (auto simp: l2_def split: if_splits)
    then have "l2 = l1" by (simp add: l2_def l1_def True grown_def Let_def)
    with v2 cp l' show ?thesis by (auto simp: l1_def True grown_def Let_def)
  qed
  then obtain buf' where v1: "list_valid l1" and s1: "size_l l1 = size_l l"
    and e1: "elem_size l1 = elem_size l"
    and cp: "memcpy (buffer_of l1) (unat (size_l l1 * elem_size l1)) w 0 (unat (elem_size l1)) = Some buf'"
    and l': "lst' = Some (l1\<lparr>data := Some buf', size_l := size_l l1 + 1\<rparr>)"
    by blast
  from write_elem [OF v1 cp] s1 e1 l' w l1_def v1 that show thesis
    by simp
qed

lemma slice_before:
  assumes "off' + n \<le> off" and "off \<le> length b"
  shows "take n (drop off' (take off b @ x)) = take n (drop off' b)"
  using assms by (simp add: drop_take)

lemma slice_written:
  assumes "off \<le> length b" and "n \<le> length w"
  shows "take n (drop off (take off b @ take n w @ y)) = take n w"
  using assms by simp

lemma drop_written:
  assumes "off + n \<le> length b" and "n \<le> length w"
  shows "drop (off + n) (take off b @ take n w @ drop (off + n) b) = drop (off + n) b"
  using assms by simp

lemma twice_no_wrap:
  fixes c :: size_t
  assumes "c < c * 2"
  shows "unat (c * 2) = 2 * unat c"
proof (rule ccontr)
  assume ne: "unat (c * 2) \<noteq> 2 * unat c"
  have m: "unat (c * 2) = unat c * 2 mod 2 ^ 64"
    by (simp add: unat_word_ariths)
  with ne have big: "2 ^ 64 \<le> unat c * 2"
    by (cases "unat c * 2 < 2 ^ 64") simp_all
  have "unat c * 2 < 2 * 2 ^ 64" using size_t_bound [of c] by simp
  with big have "unat c * 2 mod 2 ^ 64 = unat c * 2 - 2 ^ 64"
    by (simp add: mod_if)
  with m big size_t_bound [of c] have "unat (c * 2) < unat c" by simp
  with assms show False by (simp add: word_less_nat_alt)
qed

lemma size_t_Suc:
  fixes a b :: size_t
  assumes "a < b"
  shows "unat (a + 1) = Suc (unat a)"
proof -
  from assms have "unat a < unat b" by (simp add: word_less_nat_alt)
  with size_t_bound [of b] have "unat a + unat (1 :: size_t) < 2 ^ 64" by simp
  then have "unat (a + 1) = unat a + unat (1 :: size_t)"
    using unat_add_lem [of a 1] by simp
  then show ?thesis by simp
qed

lemma grown_props:
  assumes v: "list_valid l" and full: "size_l l = capacity l"
    and room: "size_l l < capacity (grown l)"
  shows "unat (capacity (grown l)) = (if capacity l = 0 then 1 else 2 * unat (capacity l))"
    and "buffer_of (grown l) =
           buffer_of l @ replicate (unat (capacity (grown l)) * unat (elem_size l) -
                                    length (buffer_of l)) 0"
    and "length (buffer_of l) \<le> unat (capacity (grown l)) * unat (elem_size l)"
proof -
  let ?n = "capacity (grown l)"
  have n: "?n = (if capacity l = 0 then 1 else capacity l * 2)"
    by (simp add: grown_def Let_def)
  show c: "unat ?n = (if capacity l = 0 then 1 else 2 * unat (capacity l))"
  proof (cases "capacity l = 0")
    case True
    then show ?thesis by (simp add: n)
  next
    case False
    with room full n have "capacity l < capacity l * 2" by simp
    then have "unat (capacity l * 2) = 2 * unat (capacity l)" by (rule twice_no_wrap)
    with False show ?thesis by (simp add: n)
  qed
  then have "unat (capacity l) \<le> unat ?n" by (simp split: if_splits)
  then have "unat (capacity l) * unat (elem_size l) \<le> unat ?n * unat (elem_size l)"
    by (rule mult_le_mono1)
  with v show le: "length (buffer_of l) \<le> unat ?n * unat (elem_size l)"
    by (simp add: buffer_of_length)
  have "buffer_of (grown l) = resized (buffer_of l) (unat ?n * unat (elem_size l))"
    by (simp add: grown_def Let_def buffer_of_def)
  with le show "buffer_of (grown l) =
           buffer_of l @ replicate (unat ?n * unat (elem_size l) - length (buffer_of l)) 0"
    by (simp add: resized_def)
qed

lemma list_push_props:
  assumes v: "list_valid l"
    and ok: "list_push (Some l) val r = Some (LIST_OK, lst')"
  shows "\<exists>w l'. val = Some w \<and> lst' = Some l' \<and> unat (elem_size l) \<le> length w \<and>
           list_valid l' \<and> elem_size l' = elem_size l \<and>
           unat (size_l l') = Suc (unat (size_l l)) \<and>
           unat (capacity l') =
             (if size_l l = capacity l
              then (if capacity l = 0 then 1 else 2 * unat (capacity l))
              else unat (capacity l)) \<and>
           (\<forall>i < unat (size_l l). elem_at l' i = elem_at l i) \<and>
           elem_at l' (unat (size_l l)) = take (unat (elem_size l)) w \<and>
           (free_zeroed l \<longrightarrow> free_zeroed l')"
proof -
  let ?e = "unat (elem_size l)" and ?s = "unat (size_l l)"
  from v ok obtain w l1 where w: "val = Some w" and wl: "?e \<le> length w"
    and l1: "l1 = (if size_l l = capacity l then grown l else l)"
    and v1: "list_valid l1" and room: "size_l l < capacity l1"
    and l': "lst' = Some (l1\<lparr>data := Some
                  (take (?s * ?e) (buffer_of l1) @ take ?e w @ drop (?s * ?e + ?e) (buffer_of l1)),
                 size_l := size_l l + 1\<rparr>)"
    by (rule list_push_ok)
  let ?B1 = "buffer_of l1"
  define B' where "B' = take (?s * ?e) ?B1 @ take ?e w @ drop (?s * ?e + ?e) ?B1"
  define l2 where "l2 = l1\<lparr>data := Some B', size_l := size_l l + 1\<rparr>"
  have e1: "elem_size l1 = elem_size l"
    by (simp add: l1 grown_def Let_def)
  from v have e0: "0 < ?e" and sc: "?s \<le> unat (capacity l)"
    by (simp_all add: list_valid_def unat_gt_0 word_le_nat_alt)
  from elem_in_buffer [OF v1 room] have rng: "?s * ?e + ?e \<le> length ?B1"
    by (simp add: e1)
  then have lenB: "length B' = length ?B1"
    using wl by (simp add: B'_def)
  have suc: "unat (size_l l + 1) = Suc ?s"
    using room by (rule size_t_Suc)
  have cap: "unat (capacity l1) =
             (if size_l l = capacity l
              then (if capacity l = 0 then 1 else 2 * unat (capacity l))
              else unat (capacity l))"
  proof (cases "size_l l = capacity l")
    case True
    with room l1 have "size_l l < capacity (grown l)" by simp
    from grown_props(1) [OF v True this] True l1 show ?thesis by simp
  next
    case False
    with l1 show ?thesis by simp
  qed
  have old: "take n (drop off ?B1) = take n (drop off (buffer_of l))"
    if "off + n \<le> length (buffer_of l)" for off n
  proof (cases "size_l l = capacity l")
    case True
    with room l1 have "size_l l < capacity (grown l)" by simp
    from grown_props(2) [OF v True this] True l1 that show ?thesis by simp
  next
    case False
    with l1 show ?thesis by simp
  qed
  have v2: "list_valid l2"
  proof -
    from room suc have "size_l l + 1 \<le> capacity l1"
      by (simp add: word_le_nat_alt word_less_nat_alt)
    moreover from room have "capacity l1 \<noteq> 0" by auto
    moreover from v1 have "elem_size l1 \<noteq> 0"
      and "unat (capacity l1) * unat (elem_size l1) < 2 ^ 64"
      by (simp_all add: list_valid_def)
    moreover from lenB v1 have "length B' = unat (capacity l1) * unat (elem_size l1)"
      by (simp add: buffer_of_length)
    ultimately show ?thesis
      by (simp add: list_valid_def l2_def)
  qed
  have keep: "elem_at l2 i = elem_at l i" if "i < ?s" for i
  proof -
    from that have "Suc i * ?e \<le> ?s * ?e" by (intro mult_le_mono1) simp
    then have a: "i * ?e + ?e \<le> ?s * ?e" by simp
    from sc have "?s * ?e \<le> unat (capacity l) * ?e" by (rule mult_le_mono1)
    with v have b: "?s * ?e \<le> length (buffer_of l)" by (simp add: buffer_of_length)
    from rng have c: "?s * ?e \<le> length ?B1" by simp
    have "elem_at l2 i = take ?e (drop (i * ?e) B')"
      by (simp add: elem_at_def l2_def e1 buffer_of_def)
    also have "\<dots> = take ?e (drop (i * ?e) ?B1)"
      unfolding B'_def using a c by (rule slice_before)
    also have "\<dots> = take ?e (drop (i * ?e) (buffer_of l))"
      using a b by (intro old) simp
    finally show ?thesis by (simp add: elem_at_def)
  qed
  have new: "elem_at l2 ?s = take ?e w"
  proof -
    from rng have c: "?s * ?e \<le> length ?B1" by simp
    have "elem_at l2 ?s = take ?e (drop (?s * ?e) B')"
      by (simp add: elem_at_def l2_def e1 buffer_of_def)
    also have "\<dots> = take ?e w"
      unfolding B'_def using c wl by (rule slice_written)
    finally show ?thesis .
  qed
  have zero: "free_zeroed l2" if fz: "free_zeroed l"
  proof -
    have "drop (Suc ?s * ?e) B' = drop (?s * ?e + ?e) ?B1"
      using drop_written [OF rng wl] by (simp add: B'_def add.commute)
    moreover have "\<forall>b \<in> set (drop (?s * ?e + ?e) ?B1). b = 0"
    proof (cases "size_l l = capacity l")
      case True
      with room l1 have g: "size_l l < capacity (grown l)" by simp
      from True v have "length (buffer_of l) = ?s * ?e" by (simp add: buffer_of_length)
      with grown_props(2) [OF v True g] True l1 show ?thesis by simp
    next
      case False
      with l1 have "?B1 = buffer_of l" by simp
      moreover have "set (drop (?s * ?e + ?e) (buffer_of l)) \<subseteq> set (drop (?s * ?e) (buffer_of l))"
        by (simp add: set_drop_subset_set_drop)
      ultimately show ?thesis using fz by (auto simp: free_zeroed_def)
    qed
    ultimately show ?thesis
      by (simp add: free_zeroed_def l2_def e1 suc buffer_of_def)
  qed
  from l' have "lst' = Some l2" by (simp add: l2_def B'_def)
  moreover have "elem_size l2 = elem_size l" by (simp add: l2_def e1)
  moreover have "unat (size_l l2) = Suc ?s" by (simp add: l2_def suc)
  moreover have "unat (capacity l2) = unat (capacity l1)" by (simp add: l2_def)
  ultimately show ?thesis
    using w wl v2 cap keep new zero by auto
qed

lemma list_get_elem:
  assumes v: "list_valid l" and idx: "index < size_l l"
    and ob: "unat (elem_size l) \<le> length ob"
  shows "list_get (Some l) index (Some ob) =
           Some (LIST_OK, Some (elem_at l (unat index) @ drop (unat (elem_size l)) ob))"
proof -
  from v idx have ic: "index < capacity l" and il: "index \<le> capacity l"
    by (auto simp: list_valid_def)
  then have "capacity l \<noteq> 0" by auto
  with v obtain buf where buf: "data l = Some buf"
    by (auto simp: list_valid_def split: option.splits)
  from v il have off: "unat (index * elem_size l) = unat index * unat (elem_size l)"
    by (rule elem_offset)
  from elem_in_buffer [OF v ic] buf
  have rng: "unat index * unat (elem_size l) + unat (elem_size l) \<le> length buf"
    by (simp add: buffer_of_def)
  from idx have "\<not> size_l l \<le> index" by auto
  with buf off rng ob show ?thesis
    by (simp add: list_get_def memcpy_def elem_at_def buffer_of_def)
qed

lemma pushes_Cons:
  assumes "pushes l (x # rest) = Some l'"
  obtains l1 where "list_push (Some l) (Some (fst x)) (snd x) = Some (LIST_OK, Some l1)"
    and "pushes l1 rest = Some l'"
  using assms
  by (cases x) (auto split: option.splits list_status.splits)

lemma pushes_props:
  assumes "list_valid l" and "pushes l vrs = Some l'"
  shows "list_valid l' \<and> elem_size l' = elem_size l \<and>
         unat (size_l l') = unat (size_l l) + length vrs \<and>
         (\<forall>i < unat (size_l l). elem_at l' i = elem_at l i) \<and>
         (\<forall>i < length vrs.
            elem_at l' (unat (size_l l) + i) = take (unat (elem_size l)) (fst (vrs ! i)))"
  using assms
proof (induction vrs arbitrary: l)
  case Nil
  then show ?case by simp
next
  case (Cons x rest)
  from Cons.prems(2) obtain l1 where
    p: "list_push (Some l) (Some (fst x)) (snd x) = Some (LIST_OK, Some l1)"
    and rest: "pushes l1 rest = Some l'"
    by (rule pushes_Cons)
  from list_push_props [OF Cons.prems(1) p]
  have v1: "list_valid l1" and e1: "elem_size l1 = elem_size l"
    and s1: "unat (size_l l1) = Suc (unat (size_l l))"
    and keep1: "\<forall>i < unat (size_l l). elem_at l1 i = elem_at l i"
    and new1: "elem_at l1 (unat (size_l l)) = take (unat (elem_size l)) (fst x)"
    by auto
  from Cons.IH [OF v1 rest]
  have v': "list_valid l'" and e': "elem_size l' = elem_size l1"
    and s': "unat (size_l l') = unat (size_l l1) + length rest"
    and keep': "\<forall>i < unat (size_l l1). elem_at l' i = elem_at l1 i"
    and new': "\<forall>i < length rest.
                 elem_at l' (unat (size_l l1) + i) = take (unat (elem_size l1)) (fst (rest ! i))"
    by auto
  have "elem_at l' i = elem_at l i" if "i < unat (size_l l)" for i
    using that keep' keep1 s1 by simp
  moreover have "elem_at l' (unat (size_l l) + i) = take (unat (elem_size l)) (fst ((x # rest) ! i))"
    if "i < length (x # rest)" for i
  proof (cases i)
    case 0
    with keep' s1 new1 show ?thesis by simp
  next
    case (Suc k)
    with that new' s1 e1 show ?thesis by simp
  qed
  ultimately show ?case
    using v' e' e1 s' s1 by simp
qed

lemma list_init_valid:
  assumes "list_init_with_capacity (Some l0) cap esz r = (LIST_OK, Some l)"
  shows "list_valid l \<and> size_l l = 0 \<and> elem_size l = esz \<and> capacity l = cap \<and>
         buffer_of l = replicate (unat cap * unat esz) 0"
  using assms
  by (auto simp: list_init_with_capacity_def calloc_def list_valid_def buffer_of_def Let_def
           split: if_splits option.splits heap_reply.splits)

lemma capacity_fits_step:
  assumes "capacity_fits s c" and "s \<le> c"
  shows "capacity_fits (Suc s) (if s = c then (if c = 0 then 1 else 2 * c) else c)"
proof (cases "s = 0 \<and> c = 0")
  case True
  then have "(1::nat) = 2 ^ 0 \<and> Suc 0 \<le> 2 ^ 0" by simp
  with True show ?thesis unfolding capacity_fits_def by fastforce
next
  case False
  with assms(1) obtain j where j: "c = 2 ^ j" "s \<le> 2 ^ j" "j = 0 \<or> 2 ^ (j - 1) < s"
    by (auto simp: capacity_fits_def)
  show ?thesis
  proof (cases "s = c")
    case True
    with j have "2 * c = 2 ^ Suc j" "Suc s \<le> 2 ^ Suc j" "2 ^ (Suc j - 1) < Suc s"
      by simp_all
    moreover from j have "c \<noteq> 0" by simp
    ultimately show ?thesis
      unfolding capacity_fits_def using True by (intro disjI2 exI [of _ "Suc j"]) simp
  next
    case ne: False
    with j assms(2) have "Suc s \<le> 2 ^ j" "j = 0 \<or> 2 ^ (j - 1) < Suc s" by auto
    with j ne show ?thesis
      unfolding capacity_fits_def by (intro disjI2 exI [of _ j]) simp
  qed
qed

lemma pushes_capacity:
  assumes "list_valid l" and "capacity_fits (unat (size_l l)) (unat (capacity l))"
    and "pushes l vrs = Some l'"
  shows "capacity_fits (unat (size_l l) + length vrs) (unat (capacity l'))"
  using assms
proof (induction vrs arbitrary: l)
  case Nil
  then show ?case by simp
next
  case (Cons x rest)
  from Cons.prems(3) obtain l1 where
    p: "list_push (Some l) (Some (fst x)) (snd x) = Some (LIST_OK, Some l1)"
    and rest: "pushes l1 rest = Some l'"
    by (rule pushes_Cons)
  from Cons.prems(1) have le: "unat (size_l l) \<le> unat (capacity l)"
    by (simp add: list_valid_def word_le_nat_alt)
  from list_push_props [OF Cons.prems(1) p]
  have v1: "list_valid l1" and s1: "unat (size_l l1) = Suc (unat (size_l l))"
    and c1: "unat (capacity l1) =
               (if size_l l = capacity l
                then (if capacity l = 0 then 1 else 2 * unat (capacity l))
                else unat (capacity l))"
    by auto
  from c1 have "unat (capacity l1) =
      (if unat (size_l l) = unat (capacity l)
       then (if unat (capacity l) = 0 then 1 else 2 * unat (capacity l))
       else unat (capacity l))"
    by (simp add: word_unat_eq_iff)
  with capacity_fits_step [OF Cons.prems(2) le] s1
  have "capacity_fits (unat (size_l l1)) (unat (capacity l1))" by simp
  from Cons.IH [OF v1 this rest] s1 show ?case by simp
qed

lemma list_grow_capacity:
  assumes "list_grow (Some g) r = Some (LIST_OK, Some g')"
  shows "capacity g' = (if capacity g = 0 then 1 else capacity g * 2)"
  using assms
  by (simp add: list_grow_def Let_def list_resize_capacity)

lemma replicate_numeral_unfold:
  "replicate (numeral k) x = x # replicate (pred_numeral k) x"
  by (simp add: numeral_eq_Suc)

subsection \<open>Round trip\<close>

text \<open>
  Claim C1. For any run of \<open>n\<close> successful pushes of values \<open>v\<^sub>0, \<dots>, v\<^sub>n\<^sub>-\<^sub>1\<close> into a
  freshly initialised list, with no pop, set or clear in between, \<open>get(i)\<close> succeeds
  and returns \<open>v\<^sub>i\<close> byte for byte, for every \<open>i < n\<close>. A push reads the first
  \<^verbatim>\<open>elem_size\<close> bytes of the block it is given, and get writes exactly these bytes to
  the front of the output block; for a value of exactly \<^verbatim>\<open>elem_size\<close> bytes this is the
  value itself.
\<close>

theorem push_get_round_trip:
  assumes init: "list_init_with_capacity (Some l0) cap esz r0 = (LIST_OK, Some l)"
    and p: "pushes l vrs = Some l'"
    and idx: "unat index < length vrs"
    and ob: "unat esz \<le> length ob"
  shows "list_get (Some l') index (Some ob) =
           Some (LIST_OK,
                 Some (take (unat esz) (fst (vrs ! unat index)) @ drop (unat esz) ob))"
proof -
  from list_init_valid [OF init] have v: "list_valid l" and s: "size_l l = 0"
    and e: "elem_size l = esz"
    by simp_all
  from pushes_props [OF v p] s e
  have v': "list_valid l'" and e': "elem_size l' = esz"
    and s': "unat (size_l l') = length vrs"
    and el: "\<forall>i < length vrs. elem_at l' i = take (unat esz) (fst (vrs ! i))"
    by simp_all
  from idx s' have "index < size_l l'" by (simp add: word_less_nat_alt)
  from list_get_elem [OF v' this] ob e' el idx show ?thesis by simp
qed

theorem push_get_round_trip_witness:
  "list_init_with_capacity (Some \<lparr>data = Some [9], size_l = 7, capacity = 5, elem_size = 3\<rparr>)
       0 2 Refuse =
     (LIST_OK, Some \<lparr>data = None, size_l = 0, capacity = 0, elem_size = 2\<rparr>) \<and>
   pushes \<lparr>data = None, size_l = 0, capacity = 0, elem_size = 2\<rparr>
       [([1, 2], Grant (\<lambda>i. 170)), ([3, 4], Grant (\<lambda>i. 170)), ([5, 6], Grant (\<lambda>i. 170))] =
     Some \<lparr>data = Some [1, 2, 3, 4, 5, 6, 0, 0], size_l = 3, capacity = 4, elem_size = 2\<rparr> \<and>
   list_get (Some \<lparr>data = Some [1, 2, 3, 4, 5, 6, 0, 0], size_l = 3, capacity = 4, elem_size = 2\<rparr>)
       1 (Some [0, 0]) =
     Some (LIST_OK, Some [3, 4])"
proof -
  have a: "list_init_with_capacity (Some \<lparr>data = Some [9], size_l = 7, capacity = 5, elem_size = 3\<rparr>)
       0 2 Refuse =
     (LIST_OK, Some \<lparr>data = None, size_l = 0, capacity = 0, elem_size = 2\<rparr>)"
    by (simp add: list_init_with_capacity_def)
  have b: "pushes \<lparr>data = None, size_l = 0, capacity = 0, elem_size = 2\<rparr>
       [([1, 2], Grant (\<lambda>i. 170)), ([3, 4], Grant (\<lambda>i. 170)), ([5, 6], Grant (\<lambda>i. 170))] =
     Some \<lparr>data = Some [1, 2, 3, 4, 5, 6, 0, 0], size_l = 3, capacity = 4, elem_size = 2\<rparr>"
    by (simp add: list_push_def list_grow_def list_resize_def realloc_def memset_def memcpy_def
          word_le_nat_alt word_less_nat_alt replicate_numeral_unfold)
  show ?thesis
    using a b push_get_round_trip [OF a b, of 1 "[0, 0]"] by simp
qed

subsection \<open>Growth by doubling\<close>

text \<open>
  Claim C3. Starting from a list initialised with capacity 0, pushing \<open>k \<ge> 1\<close> elements,
  all pushes succeeding, leaves the capacity equal to the smallest power of two that is
  at least \<open>k\<close> (so the capacity runs through 0, 1, 2, 4, 8, \<dots>); each grow sets the new
  capacity to 1 when the current capacity is 0 and to twice the current capacity
  otherwise. \<^verbatim>\<open>list_grow\<close> doubles in \<^verbatim>\<open>size_t\<close>; in a successful push on a full
  well-formed list the doubling does not wrap.
\<close>

theorem growth_doubling:
  assumes init: "list_init (Some l0) esz r0 = (LIST_OK, Some l)"
    and p: "pushes l vrs = Some l'"
    and k: "vrs \<noteq> []"
  shows "(\<exists>j. unat (capacity l') = 2 ^ j \<and> length vrs \<le> 2 ^ j \<and>
              (\<forall>i. length vrs \<le> 2 ^ i \<longrightarrow> j \<le> i)) \<and>
         (\<forall>g r g'. list_grow (Some g) r = Some (LIST_OK, Some g') \<longrightarrow>
              capacity g' = (if capacity g = 0 then 1 else capacity g * 2)) \<and>
         (\<forall>g val r g'. list_valid g \<and> size_l g = capacity g \<and>
              list_push (Some g) val r = Some (LIST_OK, Some g') \<longrightarrow>
              unat (capacity g') = (if capacity g = 0 then 1 else 2 * unat (capacity g)))"
proof -
  from init have i: "list_init_with_capacity (Some l0) 0 esz r0 = (LIST_OK, Some l)"
    by (simp add: list_init_def)
  from list_init_valid [OF i] have v: "list_valid l" and s: "size_l l = 0" and c: "capacity l = 0"
    by simp_all
  then have "capacity_fits (unat (size_l l)) (unat (capacity l))"
    by (simp add: capacity_fits_def)
  from pushes_capacity [OF v this p] s
  have "capacity_fits (length vrs) (unat (capacity l'))" by simp
  with k obtain j where j: "unat (capacity l') = 2 ^ j" "length vrs \<le> 2 ^ j"
    "j = 0 \<or> 2 ^ (j - 1) < length vrs"
    by (auto simp: capacity_fits_def)
  have "j \<le> i" if "length vrs \<le> 2 ^ i" for i
  proof (cases "j = 0")
    case True
    then show ?thesis by simp
  next
    case False
    with j(3) have "2 ^ (j - 1) < length vrs" by simp
    then have "(2::nat) ^ (j - 1) < 2 ^ i" using that by (rule less_le_trans)
    then have "j - 1 < i" by simp
    with False show ?thesis by simp
  qed
  moreover have "unat (capacity g') = (if capacity g = 0 then 1 else 2 * unat (capacity g))"
    if "list_valid g" "size_l g = capacity g" "list_push (Some g) val r = Some (LIST_OK, Some g')"
    for g val r g'
    using list_push_props [OF that(1) that(3)] that(2) by auto
  ultimately show ?thesis
    using j list_grow_capacity by blast
qed

theorem growth_doubling_witness:
  "list_init (Some \<lparr>data = Some [9], size_l = 7, capacity = 5, elem_size = 3\<rparr>) 2 Refuse =
     (LIST_OK, Some \<lparr>data = None, size_l = 0, capacity = 0, elem_size = 2\<rparr>) \<and>
   pushes \<lparr>data = None, size_l = 0, capacity = 0, elem_size = 2\<rparr>
       [([1, 2], Grant (\<lambda>i. 170)), ([3, 4], Grant (\<lambda>i. 170)), ([5, 6], Grant (\<lambda>i. 170))] =
     Some \<lparr>data = Some [1, 2, 3, 4, 5, 6, 0, 0], size_l = 3, capacity = 4, elem_size = 2\<rparr> \<and>
   unat (4 :: size_t) = 2 ^ 2 \<and> Suc (Suc (Suc 0)) \<le> 2 ^ 2"
proof -
  have a: "list_init (Some \<lparr>data = Some [9], size_l = 7, capacity = 5, elem_size = 3\<rparr>) 2 Refuse =
     (LIST_OK, Some \<lparr>data = None, size_l = 0, capacity = 0, elem_size = 2\<rparr>)"
    by (simp add: list_init_def list_init_with_capacity_def)
  have b: "pushes \<lparr>data = None, size_l = 0, capacity = 0, elem_size = 2\<rparr>
       [([1, 2], Grant (\<lambda>i. 170)), ([3, 4], Grant (\<lambda>i. 170)), ([5, 6], Grant (\<lambda>i. 170))] =
     Some \<lparr>data = Some [1, 2, 3, 4, 5, 6, 0, 0], size_l = 3, capacity = 4, elem_size = 2\<rparr>"
    by (simp add: list_push_def list_grow_def list_resize_def realloc_def memset_def memcpy_def
          word_le_nat_alt word_less_nat_alt replicate_numeral_unfold)
  have c: "[([1, 2], Grant (\<lambda>i. 170)), ([3, 4], Grant (\<lambda>i. 170)), ([5 :: byte, 6], Grant (\<lambda>i. 170))] \<noteq> []"
    by simp
  from growth_doubling [OF a b c]
  obtain j where "unat (4 :: size_t) = 2 ^ j" and "Suc (Suc (Suc 0)) \<le> 2 ^ j"
    and "\<forall>i. Suc (Suc (Suc 0)) \<le> 2 ^ i \<longrightarrow> j \<le> i"
    by auto
  with a b show ?thesis by simp
qed

subsection \<open>The invariant\<close>

lemma memcpy_length: "memcpy dst doff src soff n = Some b \<Longrightarrow> length b = length dst"
  by (auto simp: memcpy_def split: if_splits)

lemma list_push_failed:
  assumes "list_push lst val r = Some (st, lst')" and "st \<noteq> LIST_OK"
  shows "lst' = lst"
  using assms
  by (auto simp: list_push_def list_grow_def Let_def split: option.splits if_splits
           dest: list_resize_failed)

lemma list_push_valid:
  assumes v: "list_valid l" and p: "list_push (Some l) val r = Some (st, Some l')"
  shows "list_valid l'"
proof (cases "st = LIST_OK")
  case True
  with p have "list_push (Some l) val r = Some (LIST_OK, Some l')" by simp
  from list_push_props [OF v this] show ?thesis by auto
next
  case False
  with p have "Some l' = Some l" by (rule list_push_failed)
  with v show ?thesis by simp
qed

lemma list_set_valid:
  assumes v: "list_valid l" and p: "list_set (Some l) index val = Some (st, Some l')"
  shows "list_valid l'"
  using assms
  by (auto simp: list_set_def list_valid_def split: option.splits if_splits dest: memcpy_length)

lemma list_valid_dec:
  assumes v: "list_valid l" and "size_l l \<noteq> 0"
  shows "list_valid (l\<lparr>size_l := size_l l - 1\<rparr>)"
proof -
  from assms(2) have "unat (size_l l - 1) = unat (size_l l) - 1"
    by (simp add: unat_minus_one)
  moreover from v have "unat (size_l l) \<le> unat (capacity l)"
    by (simp add: list_valid_def word_le_nat_alt)
  ultimately have "size_l l - 1 \<le> capacity l"
    by (simp add: word_le_nat_alt)
  with v show ?thesis by (auto simp: list_valid_def split: option.splits)
qed

lemma list_pop_cases:
  assumes p: "list_pop (Some l) out r = Some (st, lst', out')"
  obtains (unchanged) "lst' = Some l" and "st = LIST_ERR_INVALID"
  | (kept) "size_l l \<noteq> 0" and "lst' = Some (l\<lparr>size_l := size_l l - 1\<rparr>)"
      and "\<not> (1 < capacity l \<and> size_l l - 1 < capacity l div 4)" and "st = LIST_OK"
  | (shrunk) "size_l l \<noteq> 0" and "1 < capacity l" and "size_l l - 1 < capacity l div 4"
      and "list_resize (Some (l\<lparr>size_l := size_l l - 1\<rparr>)) (capacity l div 2) r = Some (st, lst')"
proof (cases "data l = None \<or> size_l l = 0")
  case True
  with p have "lst' = Some l" "st = LIST_ERR_INVALID"
    by (auto simp: list_pop_def split: option.splits)
  then show thesis by (rule unchanged)
next
  case False
  then have nz: "size_l l \<noteq> 0" by simp
  show thesis
  proof (cases "1 < capacity l \<and> size_l l - 1 < capacity l div 4")
    case c: True
    then have "1 < capacity l" by simp
    note h = half_size_t [OF this]
    from p False c h(1) have
      "list_resize (Some (l\<lparr>size_l := size_l l - 1\<rparr>)) (capacity l div 2) r = Some (st, lst')"
      by (auto simp: list_pop_def Let_def split: option.splits if_splits)
    with nz c show thesis by (intro shrunk) simp_all
  next
    case c: False
    with p False have "lst' = Some (l\<lparr>size_l := size_l l - 1\<rparr>)" "st = LIST_OK"
      by (auto simp: list_pop_def Let_def split: option.splits if_splits)
    with nz c show thesis by (intro kept) simp_all
  qed
qed

lemma list_pop_valid:
  assumes v: "list_valid l" and p: "list_pop (Some l) out r = Some (st, Some l', out')"
  shows "list_valid l'"
  using p
proof (cases rule: list_pop_cases)
  case unchanged
  with v show ?thesis by simp
next
  case kept
  with list_valid_dec [OF v] show ?thesis by simp
next
  case shrunk
  let ?l1 = "l\<lparr>size_l := size_l l - 1\<rparr>"
  from shrunk(1) have v1: "list_valid ?l1" by (rule list_valid_dec [OF v])
  from half_size_t(4) [OF shrunk(2)]
  have "unat (capacity l div 2) \<le> 2 * unat (capacity ?l1) \<or> capacity l div 2 = 1" by simp
  from list_resize_valid [OF v1 this shrunk(4)] show ?thesis by simp
qed

lemma reachable_valid: "reachable l \<Longrightarrow> list_valid l"
proof (induction rule: reachable.induct)
  case (init l0 cap esz r l)
  then show ?case by (simp add: list_init_valid)
next
  case (push l val r st l')
  then show ?case by (auto intro: list_push_valid)
next
  case (pop l out r st l' out')
  then show ?case by (auto intro: list_pop_valid)
next
  case (set l index val st l')
  then show ?case by (auto intro: list_set_valid)
next
  case (clear l l')
  then show ?case by (auto simp: list_clear_def list_valid_def split: option.splits)
next
  case (destroy l l' released)
  then show ?case by (auto simp: list_destroy_def list_valid_def Let_def)
qed

text \<open>
  Claim C2. Every reachable state of a successfully initialised list, after any sequence
  of public operations, has \<open>size \<le> capacity\<close>, and its capacity is 0 if and only if no
  buffer is allocated; every public operation preserves this. A buffer, when there is
  one, has exactly \<open>capacity \<times> elem_size\<close> bytes.
\<close>

theorem reachable_invariant:
  assumes "reachable l"
  shows "size_l l \<le> capacity l \<and> (capacity l = 0 \<longleftrightarrow> data l = None) \<and>
         length (buffer_of l) = unat (capacity l) * unat (elem_size l)"
proof -
  from assms have "list_valid l" by (rule reachable_valid)
  then show ?thesis
    by (auto simp: list_valid_def buffer_of_def split: option.splits)
qed

theorem reachable_invariant_witness:
  "reachable \<lparr>data = Some [1, 2, 3, 4], size_l = 1, capacity = 2, elem_size = 2\<rparr> \<and>
   (1 :: size_t) \<le> 2 \<and> (2 :: size_t) \<noteq> 0 \<and> Some [1, 2, 3, 4 :: byte] \<noteq> None \<and>
   length [1, 2, 3, 4 :: byte] = unat (2 :: size_t) * unat (2 :: size_t)"
proof -
  let ?g = "Grant (\<lambda>i. 170)"
  have a: "list_init_with_capacity (Some \<lparr>data = Some [9], size_l = 7, capacity = 5, elem_size = 3\<rparr>)
             0 2 Refuse =
           (LIST_OK, Some \<lparr>data = None, size_l = 0, capacity = 0, elem_size = 2\<rparr>)"
    by (simp add: list_init_with_capacity_def)
  have b: "list_push (Some \<lparr>data = None, size_l = 0, capacity = 0, elem_size = 2\<rparr>) (Some [1, 2]) ?g =
           Some (LIST_OK, Some \<lparr>data = Some [1, 2], size_l = 1, capacity = 1, elem_size = 2\<rparr>)"
    by (simp add: list_push_def list_grow_def list_resize_def realloc_def memset_def memcpy_def
          word_le_nat_alt word_less_nat_alt replicate_numeral_unfold)
  have c: "list_push (Some \<lparr>data = Some [1, 2], size_l = 1, capacity = 1, elem_size = 2\<rparr>) (Some [3, 4]) ?g =
           Some (LIST_OK, Some \<lparr>data = Some [1, 2, 3, 4], size_l = 2, capacity = 2, elem_size = 2\<rparr>)"
    by (simp add: list_push_def list_grow_def list_resize_def realloc_def memset_def memcpy_def
          word_le_nat_alt word_less_nat_alt replicate_numeral_unfold)
  have d: "list_pop (Some \<lparr>data = Some [1, 2, 3, 4], size_l = 2, capacity = 2, elem_size = 2\<rparr>) None Refuse =
           Some (LIST_OK, Some \<lparr>data = Some [1, 2, 3, 4], size_l = 1, capacity = 2, elem_size = 2\<rparr>, None)"
    by (simp add: list_pop_def word_le_nat_alt word_less_nat_alt)
  have r: "reachable \<lparr>data = Some [1, 2, 3, 4], size_l = 1, capacity = 2, elem_size = 2\<rparr>"
    by (rule reachable.pop [OF reachable.push [OF reachable.push [OF reachable.init [OF a] b] c] d])
  show ?thesis
    using r reachable_invariant [OF r] by (simp add: buffer_of_def)
qed

subsection \<open>The free region\<close>

lemma drop_past_written:
  assumes "off + n \<le> k" and "off + n \<le> length b" and "n \<le> length w"
  shows "drop k (take off b @ take n w @ drop (off + n) b) = drop k b"
proof -
  from assms have "k - off - n + (off + n) = k" by simp
  with assms show ?thesis by simp
qed

lemma list_set_free_zeroed:
  assumes v: "list_valid l" and z: "free_zeroed l"
    and ok: "list_set (Some l) index val = Some (LIST_OK, Some l')"
  shows "free_zeroed l'"
proof -
  let ?e = "unat (elem_size l)" and ?s = "unat (size_l l)"
  from ok obtain buf w where buf: "data l = Some buf" and val: "val = Some w"
    and idx: "index < size_l l"
    by (auto simp: list_set_def split: option.splits if_splits)
  from v idx have "index \<le> capacity l" by (auto simp: list_valid_def)
  with v have off: "unat (index * elem_size l) = unat index * ?e" by (rule elem_offset)
  from ok buf val idx off have
    cp: "memcpy buf (unat index * ?e) w 0 ?e = Some (buffer_of l')"
    and f: "size_l l' = size_l l" "elem_size l' = elem_size l"
    by (auto simp: list_set_def buffer_of_def split: option.splits if_splits)
  from cp have b': "buffer_of l' = take (unat index * ?e) buf @ take ?e w @ drop (unat index * ?e + ?e) buf"
    and r: "unat index * ?e + ?e \<le> length buf" "?e \<le> length w"
    by (auto simp: memcpy_def split: if_splits)
  from idx have "Suc (unat index) \<le> ?s" by (simp add: word_less_nat_alt)
  then have "Suc (unat index) * ?e \<le> ?s * ?e" by (rule mult_le_mono1)
  then have "unat index * ?e + ?e \<le> ?s * ?e" by simp
  then have "drop (?s * ?e) (buffer_of l') = drop (?s * ?e) buf"
    unfolding b' using r by (rule drop_past_written)
  with z buf f show ?thesis by (simp add: free_zeroed_def buffer_of_def)
qed

lemma list_pop_buffer:
  assumes v: "list_valid l" and p: "list_pop (Some l) out r = Some (LIST_OK, Some l', out')"
  shows "buffer_of l' = take (length (buffer_of l')) (buffer_of l)"
  using p
proof (cases rule: list_pop_cases)
  case unchanged
  then show ?thesis by simp
next
  case kept
  then show ?thesis by (simp add: buffer_of_def)
next
  case shrunk
  let ?l1 = "l\<lparr>size_l := size_l l - 1\<rparr>"
  from shrunk(1) have v1: "list_valid ?l1" by (rule list_valid_dec [OF v])
  from half_size_t(4) [OF shrunk(2)]
  have "unat (capacity l div 2) \<le> 2 * unat (capacity ?l1) \<or> capacity l div 2 = 1" by simp
  from list_resize_ok [OF v1 this shrunk(4)]
  have "buffer_of l' = resized (buffer_of l) (unat (capacity l div 2) * unat (elem_size l))"
    by (simp add: buffer_of_def)
  moreover have "unat (capacity l div 2) * unat (elem_size l) \<le> length (buffer_of l)"
    using half_size_t(4) [OF shrunk(2)] v by (simp add: buffer_of_length)
  ultimately show ?thesis by (simp add: resized_def)
qed

text \<open>
  Claim C6, as amended. The bytes at element offsets \<open>[size, capacity)\<close> are zero after
  a successful initialisation, and they stay zero through every successful push and
  set on a well-formed list (growth zero-fills the new region) and through destroy.
  \<^verbatim>\<open>list_clear\<close> and \<^verbatim>\<open>list_pop\<close> do not write to the buffer: clear leaves it as it
  is, and after a successful pop the buffer is a prefix of the buffer before, so the
  slots they free keep the bytes of the removed elements.
\<close>

theorem free_region_zeroed:
  "(list_init_with_capacity (Some l0) cap esz r = (LIST_OK, Some l) \<longrightarrow> free_zeroed l) \<and>
   (list_valid l \<and> free_zeroed l \<and> list_push (Some l) val r = Some (LIST_OK, Some l') \<longrightarrow>
      free_zeroed l') \<and>
   (list_valid l \<and> free_zeroed l \<and> list_set (Some l) index val = Some (LIST_OK, Some l') \<longrightarrow>
      free_zeroed l') \<and>
   (list_destroy (Some l) = (Some l', released) \<longrightarrow> free_zeroed l') \<and>
   (list_clear (Some l) = Some l' \<longrightarrow> buffer_of l' = buffer_of l) \<and>
   (list_valid l \<and> list_pop (Some l) out r = Some (LIST_OK, Some l', out') \<longrightarrow>
      buffer_of l' = take (length (buffer_of l')) (buffer_of l))"
proof -
  have "free_zeroed l" if "list_init_with_capacity (Some l0) cap esz r = (LIST_OK, Some l)"
    using list_init_valid [OF that] by (simp add: free_zeroed_def)
  moreover have "free_zeroed l'"
    if "list_valid l" "free_zeroed l" "list_push (Some l) val r = Some (LIST_OK, Some l')"
    using list_push_props [OF that(1) that(3)] that(2) by auto
  moreover have "free_zeroed l'" if "list_destroy (Some l) = (Some l', released)"
    using that by (auto simp: list_destroy_def free_zeroed_def buffer_of_def Let_def)
  moreover have "buffer_of l' = buffer_of l" if "list_clear (Some l) = Some l'"
    using that by (auto simp: list_clear_def buffer_of_def)
  ultimately show ?thesis
    using list_set_free_zeroed list_pop_buffer by blast
qed

theorem free_region_zeroed_witness:
  "list_valid \<lparr>data = Some [1, 2, 3, 4], size_l = 2, capacity = 2, elem_size = 2\<rparr> \<and>
   free_zeroed \<lparr>data = Some [1, 2, 3, 4], size_l = 2, capacity = 2, elem_size = 2\<rparr> \<and>
   list_push (Some \<lparr>data = Some [1, 2, 3, 4], size_l = 2, capacity = 2, elem_size = 2\<rparr>) (Some [5, 6])
       (Grant (\<lambda>i. 170)) =
     Some (LIST_OK,
           Some \<lparr>data = Some [1, 2, 3, 4, 5, 6, 0, 0], size_l = 3, capacity = 4, elem_size = 2\<rparr>) \<and>
   free_zeroed \<lparr>data = Some [1, 2, 3, 4, 5, 6, 0, 0], size_l = 3, capacity = 4, elem_size = 2\<rparr>"
proof -
  have v: "list_valid \<lparr>data = Some [1, 2, 3, 4], size_l = 2, capacity = 2, elem_size = 2\<rparr>"
    by (simp add: list_valid_def)
  have z: "free_zeroed \<lparr>data = Some [1, 2, 3, 4], size_l = 2, capacity = 2, elem_size = 2\<rparr>"
    by (simp add: free_zeroed_def buffer_of_def)
  have p: "list_push (Some \<lparr>data = Some [1, 2, 3, 4], size_l = 2, capacity = 2, elem_size = 2\<rparr>)
       (Some [5, 6]) (Grant (\<lambda>i. 170)) =
     Some (LIST_OK,
           Some \<lparr>data = Some [1, 2, 3, 4, 5, 6, 0, 0], size_l = 3, capacity = 4, elem_size = 2\<rparr>)"
    by (simp add: list_push_def list_grow_def list_resize_def realloc_def memset_def memcpy_def
          word_le_nat_alt word_less_nat_alt replicate_numeral_unfold)
  show ?thesis
    using v z p
      free_region_zeroed [where l = "\<lparr>data = Some [1, 2, 3, 4], size_l = 2, capacity = 2, elem_size = 2\<rparr>"
        and val = "Some [5, 6]" and r = "Grant (\<lambda>i. 170)"
        and l' = "\<lparr>data = Some [1, 2, 3, 4, 5, 6, 0, 0], size_l = 3, capacity = 4, elem_size = 2\<rparr>"]
    by blast
qed

text \<open>
  Claim C6 as stated has the free region zeroed after every successful operation, pop
  and clear included. After one push of the bytes 1, 2, both a pop and a clear leave a
  list of size 0 and capacity 1 whose free slot still holds 1, 2.
\<close>

theorem free_region_after_pop_and_clear:
  "list_push (Some \<lparr>data = None, size_l = 0, capacity = 0, elem_size = 2\<rparr>) (Some [1, 2])
       (Grant (\<lambda>i. 170)) =
     Some (LIST_OK, Some \<lparr>data = Some [1, 2], size_l = 1, capacity = 1, elem_size = 2\<rparr>) \<and>
   list_pop (Some \<lparr>data = Some [1, 2], size_l = 1, capacity = 1, elem_size = 2\<rparr>) None Refuse =
     Some (LIST_OK, Some \<lparr>data = Some [1, 2], size_l = 0, capacity = 1, elem_size = 2\<rparr>, None) \<and>
   list_clear (Some \<lparr>data = Some [1, 2], size_l = 1, capacity = 1, elem_size = 2\<rparr>) =
     Some \<lparr>data = Some [1, 2], size_l = 0, capacity = 1, elem_size = 2\<rparr> \<and>
   \<not> free_zeroed \<lparr>data = Some [1, 2], size_l = 0, capacity = 1, elem_size = 2\<rparr>"
  by (simp add: list_push_def list_grow_def list_resize_def realloc_def memset_def memcpy_def
        list_pop_def list_clear_def free_zeroed_def buffer_of_def
        word_le_nat_alt word_less_nat_alt replicate_numeral_unfold)

subsection \<open>Shrinking on pop\<close>

text \<open>
  Claim C4. After every successful pop, a shrink happens if and only if the state after
  the decrement has \<open>capacity > 1\<close> and \<open>size < capacity / 4\<close> (integer division);
  then the capacity becomes \<open>max(1, capacity / 2)\<close>, and otherwise it is unchanged.
  Here \<open>size_l l - 1\<close> is the size after the decrement of a pop that succeeded.
\<close>

theorem list_pop_shrink_rule:
  assumes "list_pop (Some l) out r = Some (LIST_OK, Some l', out')"
  shows "capacity l' =
           (if 1 < capacity l \<and> size_l l - 1 < capacity l div 4
            then max 1 (capacity l div 2) else capacity l) \<and>
         (capacity l' \<noteq> capacity l) =
           (1 < capacity l \<and> size_l l - 1 < capacity l div 4)"
proof (cases "1 < capacity l \<and> size_l l - 1 < capacity l div 4")
  case True
  then have c: "1 < capacity l" by simp
  note h = half_size_t [OF c]
  from assms True have
    "list_resize (Some (l\<lparr>size_l := size_l l - 1\<rparr>)) (capacity l div 2) r = Some (LIST_OK, Some l')"
    by (auto simp: list_pop_def Let_def h(1) split: option.splits if_splits)
  then have "capacity l' = capacity l div 2"
    by (rule list_resize_capacity)
  with True h show ?thesis by simp
next
  case False
  with assms have "capacity l' = capacity l"
    by (auto simp: list_pop_def Let_def split: option.splits if_splits)
  with False show ?thesis by auto
qed

theorem list_pop_shrink_rule_witness:
  "list_pop (Some \<lparr>data = Some [1, 2, 3, 4, 5, 6, 7, 8], size_l = 2, capacity = 8, elem_size = 1\<rparr>)
      (Some [0]) (Grant (\<lambda>i. 170)) =
     Some (LIST_OK, Some \<lparr>data = Some [1, 2, 3, 4], size_l = 1, capacity = 4, elem_size = 1\<rparr>,
           Some [2]) \<and>
   (4 :: size_t) = (if (1 :: size_t) < 8 \<and> (2 :: size_t) - 1 < 8 div 4 then max 1 (8 div 2) else 8) \<and>
   ((4 :: size_t) \<noteq> 8) = ((1 :: size_t) < 8 \<and> (2 :: size_t) - 1 < 8 div 4)"
proof -
  have a: "list_pop (Some \<lparr>data = Some [1, 2, 3, 4, 5, 6, 7, 8], size_l = 2, capacity = 8, elem_size = 1\<rparr>)
      (Some [0]) (Grant (\<lambda>i. 170)) =
     Some (LIST_OK, Some \<lparr>data = Some [1, 2, 3, 4], size_l = 1, capacity = 4, elem_size = 1\<rparr>,
           Some [2])"
    by (simp add: list_pop_def list_resize_def realloc_def memcpy_def)
  show ?thesis
    using a list_pop_shrink_rule [OF a] by simp
qed

text \<open>
  Claim C5. If the shrink attempted after a successful pop fails with
  \<^verbatim>\<open>LIST_ERR_ALLOC\<close>, pop returns \<^verbatim>\<open>LIST_ERR_ALLOC\<close> but the removal stands: the
  size is decremented and, when an output block was supplied, it holds the bytes of the
  removed element; nothing is rolled back. The list is well formed and not empty, the
  shrink condition holds after the decrement, the allocator refuses, and an output block,
  if supplied, has room for one element.
\<close>

theorem list_pop_shrink_refused:
  assumes v: "list_valid l"
    and nonempty: "size_l l \<noteq> 0"
    and shrink: "1 < capacity l \<and> size_l l - 1 < capacity l div 4"
    and out: "\<forall>ob. out = Some ob \<longrightarrow> unat (elem_size l) \<le> length ob"
  shows "list_pop (Some l) out Refuse =
           Some (LIST_ERR_ALLOC, Some (l\<lparr>size_l := size_l l - 1\<rparr>),
                 map_option (\<lambda>ob. elem_at l (unat (size_l l) - 1) @ drop (unat (elem_size l)) ob) out)"
proof -
  let ?e = "unat (elem_size l)" and ?l1 = "l\<lparr>size_l := size_l l - 1\<rparr>"
  from shrink have c: "1 < capacity l" by simp
  note h = half_size_t [OF c]
  from c have c0: "capacity l \<noteq> 0" by auto
  with v obtain buf where buf: "data l = Some buf"
    by (auto simp: list_valid_def split: option.splits)
  from v have sz: "size_l l \<le> capacity l" and e0: "elem_size l \<noteq> 0"
    and L: "unat (capacity l) * ?e < 2 ^ 64"
    by (simp_all add: list_valid_def)
  from nonempty have pos: "0 < unat (size_l l)" by (simp add: unat_gt_0)
  then have dec: "unat (size_l l - 1) = unat (size_l l) - 1"
    by (simp add: unat_minus_one nonempty)
  with pos sz have lt: "size_l l - 1 < capacity l"
    by (simp add: word_less_nat_alt word_le_nat_alt)
  with v have off: "unat ((size_l l - 1) * elem_size l) = (unat (size_l l) - 1) * ?e"
    by (simp add: elem_offset dec)
  from elem_in_buffer [OF v lt] buf have rng: "(unat (size_l l) - 1) * ?e + ?e \<le> length buf"
    by (simp add: dec buffer_of_def)
  have cp: "memcpy ob 0 buf ((unat (size_l l) - 1) * ?e) ?e =
              Some (elem_at l (unat (size_l l) - 1) @ drop ?e ob)"
    if "?e \<le> length ob" for ob
    using that rng by (simp add: memcpy_def elem_at_def buffer_of_def buf)
  have half: "unat (capacity l div 2 * elem_size l) = unat (capacity l div 2) * ?e"
    using h(4) L by (rule size_t_mult_le)
  from h(1) e0 have "unat (capacity l div 2) * ?e \<noteq> 0"
    by (simp add: unat_eq_0)
  with half have nz: "capacity l div 2 * elem_size l \<noteq> 0"
    by (auto simp: unat_eq_0)
  have res: "list_resize (Some ?l1) (capacity l div 2) Refuse = Some (LIST_ERR_ALLOC, Some ?l1)"
    using h nz by (simp add: list_resize_def realloc_def)
  show ?thesis
  proof (cases out)
    case None
    with buf nonempty shrink h res show ?thesis
      by (simp add: list_pop_def Let_def)
  next
    case (Some ob)
    with out have "?e \<le> length ob" by simp
    from cp [OF this] Some buf nonempty shrink h res off show ?thesis
      by (simp add: list_pop_def Let_def)
  qed
qed

theorem list_pop_shrink_refused_witness:
  "list_valid \<lparr>data = Some [1, 2, 3, 4, 5, 6, 7, 8], size_l = 2, capacity = 8, elem_size = 1\<rparr> \<and>
   list_pop (Some \<lparr>data = Some [1, 2, 3, 4, 5, 6, 7, 8], size_l = 2, capacity = 8, elem_size = 1\<rparr>)
       (Some [0]) Refuse =
     Some (LIST_ERR_ALLOC,
           Some \<lparr>data = Some [1, 2, 3, 4, 5, 6, 7, 8], size_l = 1, capacity = 8, elem_size = 1\<rparr>,
           Some [2])"
proof -
  have v: "list_valid \<lparr>data = Some [1, 2, 3, 4, 5, 6, 7, 8], size_l = 2, capacity = 8, elem_size = 1\<rparr>"
    by (simp add: list_valid_def)
  show ?thesis
    using v list_pop_shrink_refused [OF v, of "Some [0]"]
    by (simp add: elem_at_def buffer_of_def)
qed

subsection \<open>Missing arguments of \<^verbatim>\<open>list_set\<close> and \<^verbatim>\<open>list_get\<close>\<close>

text \<open>
  Claim C7 says that \<^verbatim>\<open>list_set\<close> with a missing value pointer fails with
  \<^verbatim>\<open>LIST_ERR_INVALID\<close> before any bounds check or write, as \<^verbatim>\<open>list_get\<close> does for a
  missing output target. The code of \<^verbatim>\<open>list_set\<close> has no such test: on a list with one
  element, a null value at index 0 is read by \<^verbatim>\<open>memcpy\<close> (undefined behaviour), and at
  index 1 the bounds check answers \<^verbatim>\<open>LIST_OUT_OF_BOUNDS\<close>; \<^verbatim>\<open>list_get\<close> and
  \<^verbatim>\<open>list_push\<close> reject their null argument.
\<close>

theorem list_set_null_value:
  "list_set (Some \<lparr>data = Some [1, 2, 3, 4], size_l = 1, capacity = 1, elem_size = 4\<rparr>) 0 None = None \<and>
   list_set (Some \<lparr>data = Some [1, 2, 3, 4], size_l = 1, capacity = 1, elem_size = 4\<rparr>) 1 None =
     Some (LIST_OUT_OF_BOUNDS,
           Some \<lparr>data = Some [1, 2, 3, 4], size_l = 1, capacity = 1, elem_size = 4\<rparr>) \<and>
   list_get (Some \<lparr>data = Some [1, 2, 3, 4], size_l = 1, capacity = 1, elem_size = 4\<rparr>) 0 None =
     Some (LIST_ERR_INVALID, None) \<and>
   list_push (Some \<lparr>data = Some [1, 2, 3, 4], size_l = 1, capacity = 1, elem_size = 4\<rparr>) None r =
     Some (LIST_ERR_INVALID,
           Some \<lparr>data = Some [1, 2, 3, 4], size_l = 1, capacity = 1, elem_size = 4\<rparr>)"
  by (simp add: list_set_def list_get_def list_push_def)

text \<open>
  Claim C9. For a successfully initialised list with capacity 0 (no buffer), get and set
  return \<^verbatim>\<open>LIST_ERR_INVALID\<close> for every index, never \<^verbatim>\<open>LIST_OUT_OF_BOUNDS\<close>: the test
  for the missing buffer comes before the bounds check. An empty list initialised with a
  positive capacity answers \<^verbatim>\<open>LIST_OUT_OF_BOUNDS\<close> for index 0 in the same calls.
\<close>

theorem list_get_set_null_buffer:
  assumes "list_init_with_capacity (Some l0) cap esz r = (LIST_OK, Some l)"
  shows "if cap = 0
         then list_get (Some l) index out = Some (LIST_ERR_INVALID, out) \<and>
              list_set (Some l) index val = Some (LIST_ERR_INVALID, Some l)
         else list_get (Some l) 0 (Some ob) = Some (LIST_OUT_OF_BOUNDS, Some ob) \<and>
              list_set (Some l) 0 val = Some (LIST_OUT_OF_BOUNDS, Some l)"
  using assms
  by (auto simp: list_init_with_capacity_def list_get_def list_set_def Let_def
           split: if_splits option.splits)

theorem list_get_set_null_buffer_witness:
  "list_init_with_capacity (Some \<lparr>data = Some [9], size_l = 7, capacity = 5, elem_size = 3\<rparr>) 0 4 Refuse =
     (LIST_OK, Some \<lparr>data = None, size_l = 0, capacity = 0, elem_size = 4\<rparr>) \<and>
   list_get (Some \<lparr>data = None, size_l = 0, capacity = 0, elem_size = 4\<rparr>) 0 (Some [0, 0, 0, 0]) =
     Some (LIST_ERR_INVALID, Some [0, 0, 0, 0]) \<and>
   list_set (Some \<lparr>data = None, size_l = 0, capacity = 0, elem_size = 4\<rparr>) 0 (Some [1, 2, 3, 4]) =
     Some (LIST_ERR_INVALID, Some \<lparr>data = None, size_l = 0, capacity = 0, elem_size = 4\<rparr>) \<and>
   list_init_with_capacity (Some \<lparr>data = Some [9], size_l = 7, capacity = 5, elem_size = 3\<rparr>) 1 4
       (Grant (\<lambda>i. 170)) =
     (LIST_OK, Some \<lparr>data = Some [0, 0, 0, 0], size_l = 0, capacity = 1, elem_size = 4\<rparr>) \<and>
   list_get (Some \<lparr>data = Some [0, 0, 0, 0], size_l = 0, capacity = 1, elem_size = 4\<rparr>) 0
       (Some [0, 0, 0, 0]) =
     Some (LIST_OUT_OF_BOUNDS, Some [0, 0, 0, 0]) \<and>
   list_set (Some \<lparr>data = Some [0, 0, 0, 0], size_l = 0, capacity = 1, elem_size = 4\<rparr>) 0
       (Some [1, 2, 3, 4]) =
     Some (LIST_OUT_OF_BOUNDS,
           Some \<lparr>data = Some [0, 0, 0, 0], size_l = 0, capacity = 1, elem_size = 4\<rparr>)"
proof -
  have a: "list_init_with_capacity (Some \<lparr>data = Some [9], size_l = 7, capacity = 5, elem_size = 3\<rparr>) 0 4 Refuse =
     (LIST_OK, Some \<lparr>data = None, size_l = 0, capacity = 0, elem_size = 4\<rparr>)"
    by (simp add: list_init_with_capacity_def)
  have b: "list_init_with_capacity (Some \<lparr>data = Some [9], size_l = 7, capacity = 5, elem_size = 3\<rparr>) 1 4
       (Grant (\<lambda>i. 170)) =
     (LIST_OK, Some \<lparr>data = Some [0, 0, 0, 0], size_l = 0, capacity = 1, elem_size = 4\<rparr>)"
    by (simp add: list_init_with_capacity_def calloc_def) (simp add: eval_nat_numeral)
  show ?thesis
    using a b
      list_get_set_null_buffer [OF a, of 0 "Some [0, 0, 0, 0]" "Some [1, 2, 3, 4]"]
      list_get_set_null_buffer [OF b, of _ _ "Some [1, 2, 3, 4]" "[0, 0, 0, 0]"]
    by simp
qed

subsection \<open>The frame of \<^verbatim>\<open>list_set\<close>\<close>

text \<open>
  Claim C10. For every valid list and every index below the size, a successful set
  changes only the \<^verbatim>\<open>elem_size\<close> bytes of the element at that index: size, capacity
  and element size, the presence and the extent of the buffer, and every byte outside
  the element (other elements and the free region) are unchanged.
\<close>

theorem list_set_frame:
  assumes v: "list_valid l"
    and ok: "list_set (Some l) index val = Some (LIST_OK, lst')"
  shows "\<exists>l'. lst' = Some l' \<and>
           size_l l' = size_l l \<and> capacity l' = capacity l \<and> elem_size l' = elem_size l \<and>
           data l' \<noteq> None \<and> length (buffer_of l') = length (buffer_of l) \<and>
           (\<forall>j < length (buffer_of l).
              j < unat index * unat (elem_size l) \<or>
              unat index * unat (elem_size l) + unat (elem_size l) \<le> j \<longrightarrow>
              buffer_of l' ! j = buffer_of l ! j)"
proof -
  let ?e = "unat (elem_size l)" and ?off = "unat index * unat (elem_size l)"
  from ok obtain buf v' where buf: "data l = Some buf" and val: "val = Some v'"
    and idx: "index < size_l l"
    by (auto simp: list_set_def split: option.splits if_splits)
  from v idx have ic: "index < capacity l" and "index \<le> capacity l"
    by (auto simp: list_valid_def)
  with v have off: "unat (index * elem_size l) = ?off" by (simp add: elem_offset)
  from ok buf val idx off obtain buf' where
    cp: "memcpy buf ?off v' 0 ?e = Some buf'" and l': "lst' = Some (l\<lparr>data := Some buf'\<rparr>)"
    by (auto simp: list_set_def split: option.splits if_splits)
  from cp have b': "buf' = take ?off buf @ take ?e v' @ drop (?off + ?e) buf"
    and r: "?off + ?e \<le> length buf" "?e \<le> length v'"
    by (auto simp: memcpy_def split: if_splits)
  from b' r have len: "length buf' = length buf" by simp
  have "buf' ! j = buf ! j"
    if "j < length buf" and "j < ?off \<or> ?off + ?e \<le> j" for j
    using that r by (auto simp: b' nth_append)
  with l' buf len show ?thesis
    by (simp add: buffer_of_def)
qed

theorem list_set_frame_witness:
  "list_valid \<lparr>data = Some [1, 2, 3, 4, 0, 0, 0, 0], size_l = 2, capacity = 4, elem_size = 2\<rparr> \<and>
   list_set (Some \<lparr>data = Some [1, 2, 3, 4, 0, 0, 0, 0], size_l = 2, capacity = 4, elem_size = 2\<rparr>)
       1 (Some [9, 8]) =
     Some (LIST_OK,
           Some \<lparr>data = Some [1, 2, 9, 8, 0, 0, 0, 0], size_l = 2, capacity = 4, elem_size = 2\<rparr>) \<and>
   [1, 2, 9, 8, 0, 0, 0, 0 :: byte] ! 1 = [1, 2, 3, 4, 0, 0, 0, 0] ! 1 \<and>
   [1, 2, 9, 8, 0, 0, 0, 0 :: byte] ! 4 = [1, 2, 3, 4, 0, 0, 0, 0] ! 4"
proof -
  have v: "list_valid \<lparr>data = Some [1, 2, 3, 4, 0, 0, 0, 0], size_l = 2, capacity = 4, elem_size = 2\<rparr>"
    by (simp add: list_valid_def)
  have ok: "list_set (Some \<lparr>data = Some [1, 2, 3, 4, 0, 0, 0, 0], size_l = 2, capacity = 4, elem_size = 2\<rparr>)
       1 (Some [9, 8]) =
     Some (LIST_OK,
           Some \<lparr>data = Some [1, 2, 9, 8, 0, 0, 0, 0], size_l = 2, capacity = 4, elem_size = 2\<rparr>)"
    by (simp add: list_set_def memcpy_def word_le_nat_alt)
  show ?thesis
    using v ok list_set_frame [OF v ok] by (simp add: buffer_of_def)
qed

subsection \<open>Teardown\<close>

text \<open>
  Claim C8, as amended. \<^verbatim>\<open>list_destroy\<close> releases the buffer if present: the block
  handed to \<^verbatim>\<open>free\<close> is the buffer of the list, and nothing is released when the list
  has none. It resets \<^verbatim>\<open>data\<close>, \<^verbatim>\<open>size\<close> and \<^verbatim>\<open>capacity\<close> to the empty state;
  \<^verbatim>\<open>elem_size\<close> keeps its value. It is idempotent and safe: on a missing target it
  changes nothing and releases nothing, and on an object that was already destroyed it
  releases nothing (no block is freed twice) and leaves the same empty state.
\<close>

theorem list_destroy_resets:
  "list_destroy None = (None, None) \<and>
   list_destroy (Some l) =
     (Some \<lparr>data = None, size_l = 0, capacity = 0, elem_size = elem_size l\<rparr>, data l) \<and>
   (data l = Some buf \<longrightarrow> snd (list_destroy (Some l)) = Some buf) \<and>
   (data l = None \<longrightarrow> snd (list_destroy (Some l)) = None) \<and>
   list_destroy (fst (list_destroy lst)) = (fst (list_destroy lst), None)"
  by (cases lst) (simp_all add: list_destroy_def free_def Let_def split: option.splits)

theorem list_destroy_resets_witness:
  "list_destroy (Some \<lparr>data = Some [1, 2, 3, 4], size_l = 1, capacity = 1, elem_size = 4\<rparr>) =
     (Some \<lparr>data = None, size_l = 0, capacity = 0, elem_size = 4\<rparr>, Some [1, 2, 3, 4]) \<and>
   list_destroy (Some \<lparr>data = None, size_l = 0, capacity = 0, elem_size = 4\<rparr>) =
     (Some \<lparr>data = None, size_l = 0, capacity = 0, elem_size = 4\<rparr>, None) \<and>
   list_destroy None = (None, None)"
proof -
  let ?l = "\<lparr>data = Some [1, 2, 3, 4 :: byte], size_l = 1, capacity = 1, elem_size = 4\<rparr>"
  have d: "data ?l = Some [1, 2, 3, 4]" by simp
  note t = list_destroy_resets [of ?l "[1, 2, 3, 4]" "Some ?l"]
  from t have n: "list_destroy None = (None, None)"
    by blast
  from t d have a: "list_destroy (Some ?l) =
              (Some \<lparr>data = None, size_l = 0, capacity = 0, elem_size = 4\<rparr>, Some [1, 2, 3, 4])"
    by simp
  from t have b: "list_destroy (fst (list_destroy (Some ?l))) = (fst (list_destroy (Some ?l)), None)"
    by blast
  from b have "list_destroy (Some \<lparr>data = None, size_l = 0, capacity = 0, elem_size = 4\<rparr>) =
                 (Some \<lparr>data = None, size_l = 0, capacity = 0, elem_size = 4\<rparr>, None)"
    by (simp only: a fst_conv)
  with n a show ?thesis by simp
qed

text \<open>
  Claim C8 as stated includes \<^verbatim>\<open>elem_size\<close> among the fields that are reset. It is not:
  a list of 4-byte elements still has \<^verbatim>\<open>elem_size = 4\<close> after \<^verbatim>\<open>list_destroy\<close>.
\<close>

theorem list_destroy_keeps_elem_size:
  "fst (list_destroy (Some \<lparr>data = Some [1, 2, 3, 4], size_l = 1, capacity = 1, elem_size = 4\<rparr>)) =
     Some \<lparr>data = None, size_l = 0, capacity = 0, elem_size = 4\<rparr> \<and>
   fst (list_destroy (Some \<lparr>data = Some [1, 2, 3, 4], size_l = 1, capacity = 1, elem_size = 4\<rparr>)) \<noteq>
     Some \<lparr>data = None, size_l = 0, capacity = 0, elem_size = 0\<rparr>"
  by (simp add: list_destroy_def Let_def)

end
